theory Spec2Isabelle
  imports Main "HOL-Library.Sublist"
begin

section \<open>The Raven stream lexer\<close>

text \<open>
  A shallow embedding of the stream parser \<^verbatim>\<open>ravenParser\<close> of
  codemirror-lang-raven. A line is a list of characters, the mutable \<^verbatim>\<open>RavenState\<close> is
  passed in and returned, and the one place where the JavaScript could throw (reading a
  property of a null string context) is a value of type \<open>error\<close>.

  Characters are the 8-bit \<open>char\<close> of HOL, read as the code units \<open>0x00..0xFF\<close>.
\<close>

subsection \<open>Characters\<close>

abbreviation dquote :: char where "dquote \<equiv> CHR 0x22"
abbreviation backslash :: char where "backslash \<equiv> CHR 0x5C"
abbreviation backtick :: char where "backtick \<equiv> CHR 0x60"
abbreviation tab :: char where "tab \<equiv> CHR 0x09"
abbreviation cr :: char where "cr \<equiv> CHR 0x0D"

text \<open>\<^verbatim>\<open>identifierStart = /[A-Za-z_]/\<close>\<close>
definition identifierStart :: "char \<Rightarrow> bool" where
  "identifierStart c \<longleftrightarrow> c \<in> set ''ABCDEFGHIJKLMNOPQRSTUVWXYZabcdefghijklmnopqrstuvwxyz_''"

text \<open>\<^verbatim>\<open>\d\<close>\<close>
definition isDigit :: "char \<Rightarrow> bool" where
  "isDigit c \<longleftrightarrow> c \<in> set ''0123456789''"

text \<open>\<^verbatim>\<open>identifierPart = /[A-Za-z0-9_!?]/\<close>\<close>
definition identifierPart :: "char \<Rightarrow> bool" where
  "identifierPart c \<longleftrightarrow> identifierStart c \<or> isDigit c \<or> c = CHR ''!'' \<or> c = CHR ''?''"

text \<open>\<^verbatim>\<open>[0-9a-fA-F]\<close>\<close>
definition isHexDigit :: "char \<Rightarrow> bool" where
  "isHexDigit c \<longleftrightarrow> c \<in> set ''0123456789abcdefABCDEF''"

text \<open>\<^verbatim>\<open>operatorChars = /=|!|<|>|\+|-|\*|\/|\^|:|&|\|/\<close>\<close>
definition operatorChars :: "char \<Rightarrow> bool" where
  "operatorChars c \<longleftrightarrow> c \<in> set ''=!<>+-*/^:&|''"

text \<open>\<^verbatim>\<open>delimiters = new Set(["(", ")", "[", "]", "{", "}"])\<close>\<close>
definition delimiters :: "char set" where
  "delimiters = set ''()[]{}''"

text \<open>\<^verbatim>\<open>statementTerminators = new Set([",", ")", "]", "}", "#"])\<close>\<close>
definition statementTerminators :: "char set" where
  "statementTerminators = set '',)]}#''"

definition multiCharOps :: "string list" where
  "multiCharOps = [''...'']"

definition pairedOps :: "string list" where
  "pairedOps = [''=='', ''!='', ''>='', ''<='', ''&&'', ''||'', ''|>'']"

definition singleOps :: "string list" where
  "singleOps = [''='', ''+'', ''-'', ''*'', ''/'', ''^'', ''>'', ''<'', '':'', ''&'', ''|'']"

text \<open>
  The whitespace class (\<^verbatim>\<open>\s\<close> and the no-break space) of \<^verbatim>\<open>StringStream.eatSpace\<close>, on the code units below
  \<open>0x100\<close>: tab, line feed, vertical tab, form feed, carriage return, space and the
  no-break space.
\<close>
definition isSpace :: "char \<Rightarrow> bool" where
  "isSpace c \<longleftrightarrow> c \<in> {tab, CHR 0x0A, CHR 0x0B, CHR 0x0C, cr, CHR '' '', CHR 0xA0}"

subsection \<open>The string stream of the host\<close>

text \<open>
  \<^verbatim>\<open>StringStream\<close> belongs to the editor library; the lexer uses its line (the field
  \<^verbatim>\<open>string\<close>, here \<open>line\<close>) and its cursor \<^verbatim>\<open>pos\<close>. The operations below follow the
  library: \<^verbatim>\<open>sol\<close> is \<^verbatim>\<open>pos == 0\<close>, \<^verbatim>\<open>eol\<close> is \<^verbatim>\<open>pos >= string.length\<close>, \<^verbatim>\<open>peek\<close> is the
  character at the cursor or \<^verbatim>\<open>undefined\<close>, \<^verbatim>\<open>next\<close> advances by one character unless at
  the end, \<^verbatim>\<open>match\<close> of a string compares \<^verbatim>\<open>string.substr(pos, pattern.length)\<close> with the
  pattern and advances past it on success, and \<^verbatim>\<open>match\<close> of a regular expression
  succeeds only when the expression matches at the cursor itself.
\<close>

record StringStream =
  line :: string
  pos :: nat

definition rest :: "StringStream \<Rightarrow> string" where
  "rest stream = drop (pos stream) (line stream)"

definition sol :: "StringStream \<Rightarrow> bool" where
  "sol stream \<longleftrightarrow> pos stream = 0"

definition eol :: "StringStream \<Rightarrow> bool" where
  "eol stream \<longleftrightarrow> pos stream \<ge> length (line stream)"

definition peek :: "StringStream \<Rightarrow> char option" where
  "peek stream = (case rest stream of [] \<Rightarrow> None | c # _ \<Rightarrow> Some c)"

definition advance :: "nat \<Rightarrow> StringStream \<Rightarrow> StringStream" where
  "advance n stream = stream\<lparr>pos := pos stream + n\<rparr>"

definition next_char :: "StringStream \<Rightarrow> StringStream" where
  "next_char stream = (if pos stream < length (line stream) then advance 1 stream else stream)"

definition skipToEnd :: "StringStream \<Rightarrow> StringStream" where
  "skipToEnd stream = stream\<lparr>pos := length (line stream)\<rparr>"

definition eatWhile :: "(char \<Rightarrow> bool) \<Rightarrow> StringStream \<Rightarrow> StringStream" where
  "eatWhile p stream = advance (length (takeWhile p (rest stream))) stream"

text \<open>\<^verbatim>\<open>eatSpace\<close> returns whether it moved the cursor.\<close>
definition eatSpace :: "StringStream \<Rightarrow> bool \<times> StringStream" where
  "eatSpace stream =
     (let n = length (takeWhile isSpace (rest stream)) in (n > 0, advance n stream))"

text \<open>\<^verbatim>\<open>stream.match(pattern)\<close> for a string pattern.\<close>
definition match_str :: "string \<Rightarrow> StringStream \<Rightarrow> StringStream option" where
  "match_str pattern stream =
     (if take (length pattern) (rest stream) = pattern
      then Some (advance (length pattern) stream) else None)"

text \<open>The first string of a list that matches at the cursor, as the \<^verbatim>\<open>for (const op of ...)\<close> loops try them.\<close>
fun match_first :: "string list \<Rightarrow> StringStream \<Rightarrow> StringStream option" where
  "match_first [] stream = None"
| "match_first (op # ops) stream =
     (case match_str op stream of Some stream' \<Rightarrow> Some stream' | None \<Rightarrow> match_first ops stream)"

subsection \<open>The regular expressions, as the length of the match at the start of the input\<close>

text \<open>\<^verbatim>\<open>/0x[0-9a-fA-F]+/\<close>\<close>
fun match_hex :: "string \<Rightarrow> nat option" where
  "match_hex (a # b # cs) =
     (if a = CHR ''0'' \<and> b = CHR ''x'' \<and> takeWhile isHexDigit cs \<noteq> []
      then Some (2 + length (takeWhile isHexDigit cs)) else None)"
| "match_hex _ = None"

text \<open>\<^verbatim>\<open>/\d+(?:\.\d*)?/\<close>: digits, then greedily a dot and any digits.\<close>
definition match_decimal :: "string \<Rightarrow> nat option" where
  "match_decimal src =
     (let ds = takeWhile isDigit src in
      if ds = [] then None
      else (case dropWhile isDigit src of
              c # cs \<Rightarrow> if c = CHR ''.'' then Some (length ds + 1 + length (takeWhile isDigit cs))
                        else Some (length ds)
            | [] \<Rightarrow> Some (length ds)))"

text \<open>\<^verbatim>\<open>/-\d+(?:\.\d*)?/\<close>\<close>
fun match_signed :: "string \<Rightarrow> nat option" where
  "match_signed (c # cs) =
     (if c = CHR ''-'' then map_option Suc (match_decimal cs) else None)"
| "match_signed [] = None"

text \<open>\<^verbatim>\<open>/\.\d+/\<close>\<close>
fun match_leading_dot :: "string \<Rightarrow> nat option" where
  "match_leading_dot (c # cs) =
     (if c = CHR ''.'' \<and> takeWhile isDigit cs \<noteq> []
      then Some (1 + length (takeWhile isDigit cs)) else None)"
| "match_leading_dot [] = None"

text \<open>
  \<^verbatim>\<open>/(\\*)(["`])/\<close>: the number of backslashes (group 1) and the quote (group 2). The
  backslash run is maximal because a quote is not a backslash.
\<close>
definition match_opener :: "string \<Rightarrow> (nat \<times> char) option" where
  "match_opener src =
     (case dropWhile (\<lambda>c. c = backslash) src of
        q # _ \<Rightarrow> if q = dquote \<or> q = backtick
                 then Some (length (takeWhile (\<lambda>c. c = backslash) src), q) else None
      | [] \<Rightarrow> None)"

text \<open>\<^verbatim>\<open>stream.match(regex)\<close>: advance past a match at the cursor.\<close>
definition match_re :: "(string \<Rightarrow> nat option) \<Rightarrow> StringStream \<Rightarrow> StringStream option" where
  "match_re re stream = map_option (\<lambda>n. advance n stream) (re (rest stream))"

subsection \<open>The lexer state\<close>

record StringState =
  quote :: char
  slashes :: nat
  raw :: bool
  close :: string
  escape :: "string option"

record RavenState =
  string :: "StringState option"
  exprStart :: bool
  macroEligible :: bool
  afterDot :: bool
  inSwap :: bool
  macroLocked :: bool
  macroLockStack :: "bool list"

text \<open>The token styles the lexer returns; \<^verbatim>\<open>null\<close> is \<open>None\<close>.\<close>
datatype style =
  Keyword | VariableName | VariableNameSpecial | PropertyName | Number | String
  | Operator | Bracket | Punctuation | Annotation | Comment

text \<open>The only run-time failure the JavaScript could raise: a property read on \<^verbatim>\<open>null\<close>.\<close>
datatype error = TypeError

subsection \<open>Lookahead\<close>

text \<open>
  \<^verbatim>\<open>peekNonSpace\<close>: the first character at or after the cursor that is not a space, a tab
  or a carriage return, with its index; a \<^verbatim>\<open>#\<close> counts as nothing.
\<close>
fun peekNonSpace_from :: "string \<Rightarrow> nat \<Rightarrow> char option \<times> nat" where
  "peekNonSpace_from [] i = (None, i)"
| "peekNonSpace_from (ch # cs) i =
     (if ch = CHR '' '' \<or> ch = tab \<or> ch = cr then peekNonSpace_from cs (Suc i)
      else if ch = CHR ''#'' then (None, i)
      else (Some ch, i))"

definition peekNonSpace :: "StringStream \<Rightarrow> char option \<times> nat" where
  "peekNonSpace stream =
     (if pos stream < length (line stream) then peekNonSpace_from (rest stream) (pos stream)
      else (None, length (line stream)))"

text \<open>\<^verbatim>\<open>isStringStart(source) = /^(\\*)(["`])/.test(source)\<close>\<close>
definition isStringStart :: "string \<Rightarrow> bool" where
  "isStringStart source \<longleftrightarrow> match_opener source \<noteq> None"

text \<open>\<^verbatim>\<open>/\d/.test(stream.string[i] ?? "")\<close>\<close>
definition digit_at :: "StringStream \<Rightarrow> nat \<Rightarrow> bool" where
  "digit_at stream i \<longleftrightarrow> i < length (line stream) \<and> isDigit (line stream ! i)"

definition isArgStart :: "StringStream \<Rightarrow> char option \<times> nat \<Rightarrow> bool" where
  "isArgStart stream nxt =
     (case nxt of
        (None, p) \<Rightarrow> False
      | (Some ch, p) \<Rightarrow>
          if identifierStart ch \<or> isDigit ch then True
          else if ch = CHR ''.'' \<and> digit_at stream (p + 1) then True
          else if ch = CHR ''('' \<or> ch = CHR ''['' \<or> ch = CHR ''{'' \<or> ch = CHR ''@'' then True
          else if ch = dquote \<or> ch = backtick then True
          else if ch = backslash then isStringStart (drop p (line stream))
          else if ch = CHR ''&'' then True
          else if ch = CHR ''-'' \<and> digit_at stream (p + 1) then True
          else False)"

definition shouldKeyword :: "StringStream \<Rightarrow> RavenState \<Rightarrow> bool" where
  "shouldKeyword stream state =
     (if \<not> exprStart state \<or> \<not> macroEligible state \<or> afterDot state \<or> inSwap state
         \<or> macroLocked state then False
      else let immediate = peek stream in
        if immediate = Some (CHR ''('') \<or> immediate = Some (CHR ''['')
           \<or> immediate = Some (CHR ''.'') then False
        else if immediate \<noteq> None \<and> isStringStart (rest stream) then False
        else let nxt = peekNonSpace stream in
          if fst nxt = None \<or> the (fst nxt) \<in> statementTerminators then False
          else isArgStart stream nxt)"

subsection \<open>Strings\<close>

definition startString ::
  "StringStream \<Rightarrow> RavenState \<Rightarrow> (StringState \<times> StringStream \<times> RavenState) option" where
  "startString stream state =
     (case match_opener (rest stream) of
        None \<Rightarrow> None
      | Some (n, q) \<Rightarrow>
          let is_raw = (q = backtick);
              nxt = \<lparr>quote = q, slashes = n, raw = is_raw,
                     close = q # replicate n backslash,
                     escape = (if is_raw then None else Some (replicate (max 1 n) backslash))\<rparr>
          in Some (nxt, advance (n + 1) stream,
                   state\<lparr>string := Some nxt, exprStart := False, macroEligible := False,
                         afterDot := False, inSwap := False\<rparr>))"

text \<open>
  The loop of \<^verbatim>\<open>readString\<close>. An empty escape string is falsy in JavaScript, so it is
  never matched.
\<close>
function readString_loop ::
  "StringState \<Rightarrow> StringStream \<Rightarrow> RavenState \<Rightarrow> style \<times> StringStream \<times> RavenState" where
  "readString_loop info stream state =
     (if eol stream then (String, stream, state)
      else (case match_str (close info) stream of
              Some stream' \<Rightarrow>
                (String, stream', state\<lparr>string := None, exprStart := False, macroEligible := False\<rparr>)
            | None \<Rightarrow>
                (case (if \<not> raw info \<and> escape info \<noteq> None \<and> escape info \<noteq> Some []
                       then match_str (the (escape info)) stream else None) of
                   Some stream' \<Rightarrow>
                     readString_loop info (if \<not> eol stream' then next_char stream' else stream') state
                 | None \<Rightarrow> readString_loop info (next_char stream) state)))"
  by pat_completeness auto
termination
proof (relation "measure (\<lambda>(info, stream, state). length (line stream) - pos stream)")
  show "wf (measure (\<lambda>(info, stream, state). length (line stream) - pos stream))"
    by simp
next
  fix info :: StringState and stream :: StringStream and state :: RavenState
    and x2 :: StringStream
  assume "\<not> eol stream"
    and m: "(if \<not> raw info \<and> escape info \<noteq> None \<and> escape info \<noteq> Some []
             then match_str (the (escape info)) stream else None) = Some x2"
  from m obtain e where e: "escape info = Some e" "e \<noteq> []" "match_str e stream = Some x2"
    by (auto split: if_splits)
  from e have x2: "x2 = advance (length e) stream" "take (length e) (rest stream) = e"
    by (auto simp: match_str_def split: if_splits)
  from x2(2) have "length (take (length e) (rest stream)) = length e"
    by simp
  then have le: "length e \<le> length (line stream) - pos stream"
    by (simp add: rest_def)
  from e(2) obtain a e' where ae: "e = a # e'"
    by (cases e) auto
  from le have "pos stream + length e \<le> length (line stream)"
    unfolding ae by simp
  then show "((info, if \<not> eol x2 then next_char x2 else x2, state), info, stream, state)
      \<in> measure (\<lambda>(info, stream, state). length (line stream) - pos stream)"
    unfolding ae by (auto simp: x2(1) ae advance_def next_char_def eol_def)
next
  fix info :: StringState and stream :: StringStream and state :: RavenState
  assume "\<not> eol stream"
  then show "((info, next_char stream, state), info, stream, state)
      \<in> measure (\<lambda>(info, stream, state). length (line stream) - pos stream)"
    by (auto simp: next_char_def advance_def eol_def)
qed

declare readString_loop.simps [simp del]

text \<open>
  \<^verbatim>\<open>readString\<close> takes \<^verbatim>\<open>state.string!\<close>; with a null context the first read of
  \<^verbatim>\<open>info.close\<close> inside the loop throws, and at the end of the line nothing is read.
\<close>
definition readString ::
  "StringStream \<Rightarrow> RavenState \<Rightarrow> error + (style \<times> StringStream \<times> RavenState)" where
  "readString stream state =
     (case string state of
        None \<Rightarrow> if eol stream then Inr (String, stream, state) else Inl TypeError
      | Some info \<Rightarrow> Inr (readString_loop info stream state))"

subsection \<open>Numbers\<close>

definition number_flags :: "RavenState \<Rightarrow> RavenState" where
  "number_flags state =
     state\<lparr>exprStart := False, macroEligible := False, afterDot := False, inSwap := False\<rparr>"

definition readNumber ::
  "StringStream \<Rightarrow> RavenState \<Rightarrow> (style \<times> StringStream \<times> RavenState) option" where
  "readNumber stream state =
     (case match_re match_hex stream of
        Some stream' \<Rightarrow> Some (Number, stream', number_flags state)
      | None \<Rightarrow>
     (case (if exprStart state then match_re match_signed stream else None) of
        Some stream' \<Rightarrow> Some (Number, stream', number_flags state)
      | None \<Rightarrow>
     (case match_re match_decimal stream of
        Some stream' \<Rightarrow> Some (Number, stream', number_flags state)
      | None \<Rightarrow>
     (case (if exprStart state then match_re match_leading_dot stream else None) of
        Some stream' \<Rightarrow> Some (Number, stream', number_flags state)
      | None \<Rightarrow> None))))"

subsection \<open>The parser object\<close>

definition startState :: RavenState where
  "startState = \<lparr>string = None, exprStart = True, macroEligible = True, afterDot = False,
                 inSwap = False, macroLocked = False, macroLockStack = []\<rparr>"

definition blankLine :: "RavenState \<Rightarrow> RavenState" where
  "blankLine state =
     state\<lparr>exprStart := True, macroEligible := True, afterDot := False, inSwap := False,
           macroLocked := False\<rparr>"

text \<open>The reset at the start of \<^verbatim>\<open>token\<close>: \<^verbatim>\<open>if (stream.sol()) { ... }\<close>.\<close>
definition lineStart :: "StringStream \<Rightarrow> RavenState \<Rightarrow> RavenState" where
  "lineStart stream state =
     (if sol stream
      then state\<lparr>exprStart := True, macroEligible := True, afterDot := False, inSwap := False,
                 macroLocked := False\<rparr>
      else state)"

text \<open>The branch of \<^verbatim>\<open>token\<close> for an identifier, entered with the cursor on its first character.\<close>
definition identifier_token ::
  "StringStream \<Rightarrow> RavenState \<Rightarrow> style option \<times> StringStream \<times> RavenState" where
  "identifier_token stream state =
     (let stream' = eatWhile identifierPart (next_char stream);
          sty = (if shouldKeyword stream' state then Keyword
                 else if afterDot state then PropertyName
                 else if inSwap state then VariableNameSpecial
                 else VariableName);
          state' = (if sty = Keyword
                    then state\<lparr>exprStart := True, macroEligible := False, macroLocked := True\<rparr>
                    else state\<lparr>exprStart := False, macroEligible := False\<rparr>)
      in (Some sty, stream', state'\<lparr>afterDot := False, inSwap := False\<rparr>))"

text \<open>The branch of \<^verbatim>\<open>token\<close> for one of the six delimiters.\<close>
definition bracket_token ::
  "char \<Rightarrow> StringStream \<Rightarrow> RavenState \<Rightarrow> style option \<times> StringStream \<times> RavenState" where
  "bracket_token ch stream state =
     (let opn = (ch = CHR ''('' \<or> ch = CHR ''['' \<or> ch = CHR ''{'');
          state' = (if opn
                    then state\<lparr>macroLockStack := macroLockStack state @ [macroLocked state],
                               macroLocked := False\<rparr>
                    else state\<lparr>macroLocked :=
                                 (if macroLockStack state = [] then False
                                  else last (macroLockStack state)),
                               macroLockStack := butlast (macroLockStack state)\<rparr>)
      in (Some Bracket, next_char stream,
          state'\<lparr>exprStart := opn, macroEligible := opn, afterDot := False, inSwap := False\<rparr>))"

text \<open>
  The dispatch of \<^verbatim>\<open>token\<close> on the character \<open>ch\<close> at the cursor, from
  \<^verbatim>\<open>if (ch === "#")\<close> to the final fall-through.
\<close>
definition dispatch ::
  "char \<Rightarrow> StringStream \<Rightarrow> RavenState \<Rightarrow> style option \<times> StringStream \<times> RavenState" where
  "dispatch ch stream state =
     (if ch = CHR ''#'' then
        (Some Comment, skipToEnd stream,
         state\<lparr>exprStart := True, macroEligible := True, afterDot := False, inSwap := False,
               macroLocked := False\<rparr>)
      else if ch = CHR '','' then
        (Some Punctuation, next_char stream,
         state\<lparr>exprStart := True, macroEligible := True, afterDot := False, inSwap := False,
               macroLocked := False\<rparr>)
      else if ch \<in> delimiters then bracket_token ch stream state
      else if ch = CHR ''@'' then
        (Some Annotation, eatWhile identifierPart (next_char stream),
         state\<lparr>exprStart := True, macroEligible := False, afterDot := False, inSwap := False\<rparr>)
      else (case match_first multiCharOps stream of
        Some stream' \<Rightarrow>
          (Some Operator, stream',
           state\<lparr>exprStart := False, macroEligible := False, afterDot := False, inSwap := False\<rparr>)
      | None \<Rightarrow>
      (case match_first pairedOps stream of
        Some stream' \<Rightarrow>
          (Some Operator, stream',
           state\<lparr>exprStart := True, macroEligible := True, afterDot := False, inSwap := False\<rparr>)
      | None \<Rightarrow>
      if ch = CHR ''&'' then
        (let stream' = next_char stream;
             state' = (if peek stream' \<noteq> Some (CHR ''&'') \<and> peek stream' \<noteq> None
                          \<and> identifierStart (the (peek stream'))
                       then state\<lparr>inSwap := True\<rparr>
                       else state\<lparr>exprStart := True, macroEligible := True\<rparr>)
         in (Some Operator, stream', state'\<lparr>afterDot := False\<rparr>))
      else (case match_first singleOps stream of
        Some stream' \<Rightarrow>
          (Some Operator, stream',
           state\<lparr>exprStart := True, macroEligible := True, afterDot := False, inSwap := False\<rparr>)
      | None \<Rightarrow>
      if ch = CHR ''.'' then
        (let stream' = next_char stream in
         if peek stream' = Some (CHR ''.'') then
           (Some Operator, stream',
            state\<lparr>exprStart := False, macroEligible := False, afterDot := False, inSwap := False\<rparr>)
         else
           (Some Punctuation, stream',
            state\<lparr>afterDot := True, exprStart := False, macroEligible := False, inSwap := False\<rparr>))
      else if identifierStart ch then identifier_token stream state
      else if operatorChars ch then
        (Some Operator, next_char stream,
         state\<lparr>exprStart := True, macroEligible := True, afterDot := False, inSwap := False\<rparr>)
      else
        (None, next_char stream,
         state\<lparr>exprStart := False, macroEligible := False, afterDot := False, inSwap := False\<rparr>)))))"

definition token ::
  "StringStream \<Rightarrow> RavenState \<Rightarrow> error + (style option \<times> StringStream \<times> RavenState)" where
  "token stream state =
     (if string state \<noteq> None then
        (case readString stream state of
           Inl e \<Rightarrow> Inl e
         | Inr (sty, stream', state') \<Rightarrow> Inr (Some sty, stream', state'))
      else
        let state1 = lineStart stream state in
        (case eatSpace stream of
           (True, stream') \<Rightarrow> Inr (None, stream', state1)
         | (False, _) \<Rightarrow>
        (case readNumber stream state1 of
           Some (sty, stream', state') \<Rightarrow> Inr (Some sty, stream', state')
         | None \<Rightarrow>
        (case startString stream state1 of
           Some (info, stream', state') \<Rightarrow>
             (case readString stream' state' of
                Inl e \<Rightarrow> Inl e
              | Inr (sty, stream'', state'') \<Rightarrow> Inr (Some sty, stream'', state''))
         | None \<Rightarrow>
        (case peek stream of
           None \<Rightarrow> Inr (None, stream, state1)
         | Some ch \<Rightarrow> Inr (dispatch ch stream state1))))))"

subsection \<open>The text a string scan passes over\<close>

text \<open>
  \<open>opened q n\<close> is the context \<^verbatim>\<open>startString\<close> installs for \<open>n\<close> backslashes followed by
  the quote \<open>q\<close>.
\<close>
definition opened :: "char \<Rightarrow> nat \<Rightarrow> StringState" where
  "opened q n =
     \<lparr>quote = q, slashes = n, raw = (q = backtick), close = q # replicate n backslash,
      escape = (if q = backtick then None else Some (replicate (max 1 n) backslash))\<rparr>"

text \<open>
  The text between the opener and the close, in the words of the claim about closing:
  \<open>scanned q k ps text\<close> holds when \<open>text\<close> begins with the pieces \<open>ps\<close>, no piece
  begins where the close sequence (\<open>q\<close> and \<open>k\<close> backslashes) begins, and each piece is
  an escape run (\<open>max 1 k\<close> backslashes, in a string that is not raw) together with the
  one character after it, or else a single character.
\<close>
fun scanned :: "char \<Rightarrow> nat \<Rightarrow> string list \<Rightarrow> string \<Rightarrow> bool" where
  "scanned q k [] text \<longleftrightarrow> True"
| "scanned q k (p # ps) text \<longleftrightarrow>
     prefix p text \<and> \<not> prefix (q # replicate k backslash) text
     \<and> length p = (if q \<noteq> backtick \<and> prefix (replicate (max 1 k) backslash) text
                     then max 1 k + 1 else 1)
     \<and> scanned q k ps (drop (length p) text)"

subsection \<open>The states the lexer can be in\<close>

text \<open>
  The host creates the state with \<^verbatim>\<open>startState\<close> and afterwards only passes it to
  \<^verbatim>\<open>blankLine\<close> and \<^verbatim>\<open>token\<close>, on any line and at any cursor.
\<close>
inductive reachable :: "RavenState \<Rightarrow> bool" where
  start: "reachable startState"
| blank: "reachable state \<Longrightarrow> reachable (blankLine state)"
| tok: "reachable state \<Longrightarrow> token stream state = Inr (sty, stream', state') \<Longrightarrow> reachable state'"

subsection \<open>Tokenizing a document\<close>

text \<open>
  The host's loop, as the test helper \<^verbatim>\<open>tokens(doc)\<close> runs it: an empty line goes to
  \<^verbatim>\<open>blankLine\<close>; any other line gets a fresh stream, and \<^verbatim>\<open>token\<close> is called until the
  end of the line, each call emitting the consumed text \<^verbatim>\<open>stream.current()\<close> with its
  style. One \<open>step\<close> is one call of \<^verbatim>\<open>token\<close> or one move to the next line, so that the
  state between any two calls can be observed; \<open>run n\<close> is \<open>n\<close> steps.
\<close>

type_synonym Token = "string \<times> style option"

record Lexer =
  cur :: StringStream
  pending :: "string list"
  lexer_state :: RavenState
  emitted :: "Token list"

definition init :: "string list \<Rightarrow> Lexer" where
  "init doc = \<lparr>cur = \<lparr>line = [], pos = 0\<rparr>, pending = doc, lexer_state = startState,
                emitted = []\<rparr>"

text \<open>\<^verbatim>\<open>stream.current()\<close> after a call that began at \<open>stream\<close> and ended at \<open>stream'\<close>.\<close>
definition current :: "StringStream \<Rightarrow> StringStream \<Rightarrow> string" where
  "current stream stream' = take (pos stream' - pos stream) (drop (pos stream) (line stream'))"

definition step :: "Lexer \<Rightarrow> error + Lexer" where
  "step c =
     (if \<not> eol (cur c) then
        (case token (cur c) (lexer_state c) of
           Inl e \<Rightarrow> Inl e
         | Inr (sty, stream', state') \<Rightarrow>
             Inr (c\<lparr>cur := stream', lexer_state := state',
                    emitted := emitted c @ [(current (cur c) stream', sty)]\<rparr>))
      else (case pending c of
              [] \<Rightarrow> Inr c
            | l # ls \<Rightarrow>
                if l = [] then Inr (c\<lparr>pending := ls, lexer_state := blankLine (lexer_state c)\<rparr>)
                else Inr (c\<lparr>cur := \<lparr>line = l, pos = 0\<rparr>, pending := ls\<rparr>)))"

fun run :: "nat \<Rightarrow> Lexer \<Rightarrow> error + Lexer" where
  "run 0 c = Inr c"
| "run (Suc n) c = (case run n c of Inl e \<Rightarrow> Inl e | Inr c' \<Rightarrow> step c')"

text \<open>
  The nesting depth of a token sequence: a bracket token counts \<open>+1\<close> when it is one of
  \<open>(\<close>, \<open>[\<close>, \<open>{\<close> and \<open>-1\<close> otherwise; brackets inside strings and comments are not
  bracket tokens. \<open>nested_from d\<close> holds of a sequence that, entered at depth \<open>d\<close>, never
  closes a bracket that is not open.
\<close>
definition bracket_delta :: "Token \<Rightarrow> int" where
  "bracket_delta t =
     (if snd t = Some Bracket then (if fst t \<in> {''('', ''['', ''{''} then 1 else - 1) else 0)"

definition depth :: "Token list \<Rightarrow> int" where
  "depth ts = sum_list (map bracket_delta ts)"

fun nested_from :: "int \<Rightarrow> Token list \<Rightarrow> bool" where
  "nested_from d [] \<longleftrightarrow> True"
| "nested_from d (t # ts) \<longleftrightarrow> 0 \<le> d + bracket_delta t \<and> nested_from (d + bracket_delta t) ts"

section \<open>Properties\<close>

subsection \<open>The stream and the recognizers\<close>

lemma peek_eq_Some: "peek stream = Some c \<longleftrightarrow> (\<exists>cs. rest stream = c # cs)"
  by (auto simp: peek_def split: list.splits)

lemma peek_eq_None: "peek stream = None \<longleftrightarrow> rest stream = []"
  by (auto simp: peek_def split: list.splits)

lemma rest_Cons_pos: "rest stream = c # cs \<Longrightarrow> pos stream < length (line stream)"
  by (cases "pos stream < length (line stream)") (auto simp: rest_def)

lemma advance_0 [simp]: "advance 0 stream = stream"
  by (simp add: advance_def)

lemma next_char_Cons: "rest stream = c # cs \<Longrightarrow> next_char stream = advance 1 stream"
  by (simp add: next_char_def rest_Cons_pos)

lemma rest_advance: "rest (advance n stream) = drop n (rest stream)"
  by (simp add: rest_def advance_def add.commute)

lemma eatSpace_no_space: "rest stream = c # cs \<Longrightarrow> \<not> isSpace c \<Longrightarrow> eatSpace stream = (False, stream)"
  by (simp add: eatSpace_def)

lemma match_decimal_no_digit: "\<not> isDigit c \<Longrightarrow> match_decimal (c # cs) = None"
  by (simp add: match_decimal_def)

lemma readNumber_other:
  "rest stream = c # cs \<Longrightarrow> \<not> isDigit c \<Longrightarrow> c \<noteq> CHR ''-'' \<Longrightarrow> c \<noteq> CHR ''.'' \<Longrightarrow>
   readNumber stream state = None"
  by (cases cs) (auto simp: readNumber_def match_re_def match_decimal_no_digit isDigit_def)

lemma match_opener_other:
  "c \<noteq> backslash \<Longrightarrow> c \<noteq> dquote \<Longrightarrow> c \<noteq> backtick \<Longrightarrow> match_opener (c # cs) = None"
  by (simp add: match_opener_def)

lemma startString_other:
  "rest stream = c # cs \<Longrightarrow> c \<noteq> backslash \<Longrightarrow> c \<noteq> dquote \<Longrightarrow> c \<noteq> backtick \<Longrightarrow>
   startString stream state = None"
  by (simp add: startString_def match_opener_other)

text \<open>Outside a string, a character that starts no number and no string reaches the dispatch.\<close>
lemma token_dispatch:
  assumes "string state = None" "rest stream = c # cs" "\<not> isSpace c" "\<not> isDigit c"
    "c \<noteq> CHR ''-''" "c \<noteq> CHR ''.''" "c \<noteq> backslash" "c \<noteq> dquote" "c \<noteq> backtick"
  shows "token stream state = Inr (dispatch c stream (lineStart stream state))"
  using assms
  by (simp add: token_def eatSpace_no_space readNumber_other startString_other peek_def)

lemma match_str_Cons_neq:
  "rest stream = c # cs \<Longrightarrow> c \<noteq> d \<Longrightarrow> match_str (d # ds) stream = None"
  by (auto simp: match_str_def)

lemma identifierStart_facts:
  assumes "identifierStart c"
  shows "\<not> isSpace c" "\<not> isDigit c" "c \<noteq> CHR ''-''" "c \<noteq> CHR ''.''" "c \<noteq> backslash"
    "c \<noteq> dquote" "c \<noteq> backtick" "c \<noteq> CHR ''#''" "c \<noteq> CHR '',''" "c \<notin> delimiters"
    "c \<noteq> CHR ''@''" "c \<noteq> CHR ''&''" "\<not> operatorChars c"
  using assms
  by (auto simp: identifierStart_def isSpace_def isDigit_def delimiters_def operatorChars_def)

lemma identifierStart_no_ops:
  assumes "identifierStart c" "rest stream = c # cs"
  shows "match_first multiCharOps stream = None" "match_first pairedOps stream = None"
    "match_first singleOps stream = None"
proof -
  have ne: "c \<noteq> CHR ''.''" "c \<noteq> CHR ''=''" "c \<noteq> CHR ''!''" "c \<noteq> CHR ''>''" "c \<noteq> CHR ''<''"
    "c \<noteq> CHR ''&''" "c \<noteq> CHR ''|''" "c \<noteq> CHR ''+''" "c \<noteq> CHR ''-''" "c \<noteq> CHR ''*''"
    "c \<noteq> CHR ''/''" "c \<noteq> CHR ''^''" "c \<noteq> CHR '':''"
    using assms(1) by (auto simp: identifierStart_def)
  note m = match_str_Cons_neq[OF assms(2)]
  show "match_first multiCharOps stream = None"
    by (simp add: multiCharOps_def m ne)
  show "match_first pairedOps stream = None"
    by (simp add: pairedOps_def m ne)
  show "match_first singleOps stream = None"
    by (simp add: singleOps_def m ne)
qed

lemma dispatch_identifier:
  assumes "identifierStart c" "rest stream = c # cs"
  shows "dispatch c stream state = identifier_token stream state"
  using identifierStart_facts[OF assms(1)] identifierStart_no_ops[OF assms] assms(1)
  by (simp add: dispatch_def)

lemma token_identifier:
  assumes "string state = None" "peek stream = Some c" "identifierStart c"
  shows "token stream state = Inr (identifier_token stream (lineStart stream state))"
proof -
  from assms(2) obtain cs where r: "rest stream = c # cs"
    by (auto simp: peek_eq_Some)
  show ?thesis
    using token_dispatch[OF assms(1) r] identifierStart_facts[OF assms(3)]
      dispatch_identifier[OF assms(3) r]
    by simp
qed

subsection \<open>Identifiers\<close>

lemma identifier_token_refused:
  assumes "\<not> shouldKeyword (eatWhile identifierPart (next_char stream)) state"
  shows "identifier_token stream state =
     (Some (if afterDot state then PropertyName
            else if inSwap state then VariableNameSpecial else VariableName),
      eatWhile identifierPart (next_char stream),
      state\<lparr>exprStart := False, macroEligible := False, afterDot := False, inSwap := False\<rparr>)"
  using assms by (simp add: identifier_token_def Let_def)

lemma shouldKeyword_flags:
  "shouldKeyword stream state \<Longrightarrow>
   exprStart state \<and> macroEligible state \<and> \<not> afterDot state \<and> \<not> inSwap state \<and> \<not> macroLocked state"
  by (auto simp: shouldKeyword_def split: if_splits)

lemma shouldKeyword_immediate:
  "peek stream \<in> {Some (CHR ''(''), Some (CHR ''[''), Some (CHR ''.'')} \<Longrightarrow>
   \<not> shouldKeyword stream state"
  by (auto simp: shouldKeyword_def)

lemma isStringStart_nonempty: "isStringStart src \<Longrightarrow> src \<noteq> []"
  by (auto simp: isStringStart_def match_opener_def)

lemma shouldKeyword_string:
  "isStringStart (rest stream) \<Longrightarrow> \<not> shouldKeyword stream state"
  by (auto simp: shouldKeyword_def Let_def peek_eq_None dest: isStringStart_nonempty)

text \<open>
  C10. The blank-line operation sets \<open>exprStart\<close> and \<open>macroEligible\<close> and clears
  \<open>afterDot\<close>, \<open>inSwap\<close> and \<open>macroLocked\<close>; the string context and the lock stack are
  the ones it was given, so an open string stays open and the saved \<open>macroLocked\<close>
  values stay on the stack.
\<close>
theorem C10_blankLine_frame:
  "string (blankLine state) = string state
   \<and> macroLockStack (blankLine state) = macroLockStack state
   \<and> exprStart (blankLine state) \<and> macroEligible (blankLine state)
   \<and> \<not> afterDot (blankLine state) \<and> \<not> inSwap (blankLine state)
   \<and> \<not> macroLocked (blankLine state)
   \<and> blankLine state = state\<lparr>exprStart := True, macroEligible := True, afterDot := False,
        inSwap := False, macroLocked := False\<rparr>"
  by (simp add: blankLine_def)

text \<open>
  C1. On an identifier (outside a string, the cursor on an identifier-start character)
  the token is a keyword only if, in the state the identifier is read in (after the
  line-start reset when the identifier opens the line), \<open>exprStart\<close> and
  \<open>macroEligible\<close> hold and \<open>afterDot\<close>, \<open>inSwap\<close> and \<open>macroLocked\<close> do not. A
  keyword leaves \<open>exprStart\<close> true, \<open>macroEligible\<close> false and \<open>macroLocked\<close> true;
  any other identifier leaves \<open>exprStart\<close> and \<open>macroEligible\<close> false; both clear
  \<open>afterDot\<close> and \<open>inSwap\<close>, and nothing else changes.
\<close>
theorem C1_identifier_promotion:
  assumes "string state = None" and "peek stream = Some c" and "identifierStart c"
  shows "\<exists>sty state'.
     token stream state = Inr (Some sty, eatWhile identifierPart (next_char stream), state')
     \<and> (sty = Keyword \<longrightarrow>
          exprStart (lineStart stream state) \<and> macroEligible (lineStart stream state)
          \<and> \<not> afterDot (lineStart stream state) \<and> \<not> inSwap (lineStart stream state)
          \<and> \<not> macroLocked (lineStart stream state))
     \<and> (sty = Keyword \<longrightarrow>
          state' = (lineStart stream state)\<lparr>exprStart := True, macroEligible := False,
                     macroLocked := True, afterDot := False, inSwap := False\<rparr>)
     \<and> (sty \<noteq> Keyword \<longrightarrow>
          state' = (lineStart stream state)\<lparr>exprStart := False, macroEligible := False,
                     afterDot := False, inSwap := False\<rparr>)"
proof (cases "shouldKeyword (eatWhile identifierPart (next_char stream)) (lineStart stream state)")
  case True
  then show ?thesis
    using token_identifier[OF assms] shouldKeyword_flags[OF True]
    by (simp add: identifier_token_def Let_def)
next
  case False
  then show ?thesis
    using token_identifier[OF assms] identifier_token_refused[OF False]
    by simp
qed

theorem C1_identifier_promotion_witness:
  "string startState = None \<and> peek \<lparr>line = ''foo bar'', pos = 0\<rparr> = Some (CHR ''f'')
   \<and> identifierStart (CHR ''f'')
   \<and> token \<lparr>line = ''foo bar'', pos = 0\<rparr> startState =
       Inr (Some Keyword, \<lparr>line = ''foo bar'', pos = 3\<rparr>,
            startState\<lparr>exprStart := True, macroEligible := False, macroLocked := True\<rparr>)
   \<and> token \<lparr>line = ''foo = 1'', pos = 0\<rparr> startState =
       Inr (Some VariableName, \<lparr>line = ''foo = 1'', pos = 3\<rparr>,
            startState\<lparr>exprStart := False, macroEligible := False\<rparr>)"
proof -
  have h1: "string startState = None"
    by (simp add: startState_def)
  have h2: "peek \<lparr>line = ''foo bar'', pos = 0\<rparr> = Some (CHR ''f'')"
    "peek \<lparr>line = ''foo = 1'', pos = 0\<rparr> = Some (CHR ''f'')"
    by (simp_all add: peek_def rest_def)
  have h3: "identifierStart (CHR ''f'')"
    by (simp add: identifierStart_def)
  have e: "eatWhile identifierPart (next_char \<lparr>line = ''foo bar'', pos = 0\<rparr>)
      = \<lparr>line = ''foo bar'', pos = 3\<rparr>"
    "eatWhile identifierPart (next_char \<lparr>line = ''foo = 1'', pos = 0\<rparr>)
      = \<lparr>line = ''foo = 1'', pos = 3\<rparr>"
    by code_simp+
  have l: "lineStart \<lparr>line = ln, pos = 0\<rparr> startState = startState" for ln
    by (simp add: lineStart_def sol_def startState_def)
  have k: "shouldKeyword \<lparr>line = ''foo bar'', pos = 3\<rparr> startState"
    "\<not> shouldKeyword \<lparr>line = ''foo = 1'', pos = 3\<rparr> startState"
    by code_simp+
  have u: "startState\<lparr>exprStart := True, macroEligible := False, macroLocked := True,
        afterDot := False, inSwap := False\<rparr>
      = startState\<lparr>exprStart := True, macroEligible := False, macroLocked := True\<rparr>"
    "startState\<lparr>exprStart := False, macroEligible := False, afterDot := False, inSwap := False\<rparr>
      = startState\<lparr>exprStart := False, macroEligible := False\<rparr>"
    by (simp_all add: startState_def)
  from C1_identifier_promotion[OF h1 h2(1) h3] obtain sty state'
    where a: "token \<lparr>line = ''foo bar'', pos = 0\<rparr> startState
        = Inr (Some sty, \<lparr>line = ''foo bar'', pos = 3\<rparr>, state')"
      and b: "sty = Keyword \<longrightarrow>
        state' = startState\<lparr>exprStart := True, macroEligible := False, macroLocked := True\<rparr>"
    unfolding e l u by blast
  from a k(1) token_identifier[OF h1 h2(1) h3] have "sty = Keyword"
    unfolding l by (simp add: identifier_token_def e)
  with a b have t1: "token \<lparr>line = ''foo bar'', pos = 0\<rparr> startState =
       Inr (Some Keyword, \<lparr>line = ''foo bar'', pos = 3\<rparr>,
            startState\<lparr>exprStart := True, macroEligible := False, macroLocked := True\<rparr>)"
    by simp
  from C1_identifier_promotion[OF h1 h2(2) h3] obtain sty2 state2
    where a2: "token \<lparr>line = ''foo = 1'', pos = 0\<rparr> startState
        = Inr (Some sty2, \<lparr>line = ''foo = 1'', pos = 3\<rparr>, state2)"
      and b2: "sty2 \<noteq> Keyword \<longrightarrow>
        state2 = startState\<lparr>exprStart := False, macroEligible := False\<rparr>"
    unfolding e l u by blast
  from a2 k(2) token_identifier[OF h1 h2(2) h3] have "sty2 = VariableName"
    unfolding l by (simp add: identifier_token_def e startState_def)
  with a2 b2 have t2: "token \<lparr>line = ''foo = 1'', pos = 0\<rparr> startState =
       Inr (Some VariableName, \<lparr>line = ''foo = 1'', pos = 3\<rparr>,
            startState\<lparr>exprStart := False, macroEligible := False\<rparr>)"
    by simp
  from h1 h2(1) h3 t1 t2 show ?thesis
    by (intro conjI)
qed

text \<open>
  C5. An identifier directly followed by \<open>(\<close>, \<open>[\<close> or \<open>.\<close> is never a keyword: it is a
  property name after a dot, a special variable after a reference marker, and a plain
  variable otherwise.
\<close>
theorem C5_call_not_keyword:
  assumes "string state = None" and "peek stream = Some c" and "identifierStart c"
    and "peek (eatWhile identifierPart (next_char stream))
           \<in> {Some (CHR ''(''), Some (CHR ''[''), Some (CHR ''.'')}"
  shows "token stream state =
     Inr (Some (if afterDot (lineStart stream state) then PropertyName
                else if inSwap (lineStart stream state) then VariableNameSpecial
                else VariableName),
          eatWhile identifierPart (next_char stream),
          (lineStart stream state)\<lparr>exprStart := False, macroEligible := False,
             afterDot := False, inSwap := False\<rparr>)"
  using token_identifier[OF assms(1-3)]
    identifier_token_refused[OF shouldKeyword_immediate[OF assms(4)]]
  by simp

theorem C5_call_not_keyword_witness:
  "string startState = None \<and> peek \<lparr>line = ''foo(bar)'', pos = 0\<rparr> = Some (CHR ''f'')
   \<and> identifierStart (CHR ''f'')
   \<and> peek (eatWhile identifierPart (next_char \<lparr>line = ''foo(bar)'', pos = 0\<rparr>)) = Some (CHR ''('')
   \<and> token \<lparr>line = ''foo(bar)'', pos = 0\<rparr> startState =
       Inr (Some VariableName, \<lparr>line = ''foo(bar)'', pos = 3\<rparr>,
            startState\<lparr>exprStart := False, macroEligible := False\<rparr>)"
proof -
  have h1: "string startState = None"
    by (simp add: startState_def)
  have h2: "peek \<lparr>line = ''foo(bar)'', pos = 0\<rparr> = Some (CHR ''f'')"
    by (simp add: peek_def rest_def)
  have h3: "identifierStart (CHR ''f'')"
    by (simp add: identifierStart_def)
  have h4: "peek (eatWhile identifierPart (next_char \<lparr>line = ''foo(bar)'', pos = 0\<rparr>)) = Some (CHR ''('')"
    by code_simp
  have e: "eatWhile identifierPart (next_char \<lparr>line = ''foo(bar)'', pos = 0\<rparr>)
             = \<lparr>line = ''foo(bar)'', pos = 3\<rparr>"
    by code_simp
  have s: "lineStart \<lparr>line = ''foo(bar)'', pos = 0\<rparr> startState = startState"
    by (simp add: lineStart_def startState_def sol_def)
  from h4 have h4': "peek (eatWhile identifierPart (next_char \<lparr>line = ''foo(bar)'', pos = 0\<rparr>))
           \<in> {Some (CHR ''(''), Some (CHR ''[''), Some (CHR ''.'')}"
    by simp
  have a: "\<not> afterDot startState" "\<not> inSwap startState"
    by (simp_all add: startState_def)
  from C5_call_not_keyword[OF h1 h2 h3 h4'] h1 h2 h3 h4 show ?thesis
    unfolding e s using a by simp
qed

text \<open>
  C4, as the code has it. An identifier whose next character, with no whitespace
  skipped, starts a string literal (a run of backslashes, possibly empty, and then a
  double quote or a backtick) is never a keyword.
\<close>
theorem C4_adjacent_string_not_keyword:
  assumes "string state = None" and "peek stream = Some c" and "identifierStart c"
    and "isStringStart (rest (eatWhile identifierPart (next_char stream)))"
  shows "token stream state =
     Inr (Some (if afterDot (lineStart stream state) then PropertyName
                else if inSwap (lineStart stream state) then VariableNameSpecial
                else VariableName),
          eatWhile identifierPart (next_char stream),
          (lineStart stream state)\<lparr>exprStart := False, macroEligible := False,
             afterDot := False, inSwap := False\<rparr>)"
  using token_identifier[OF assms(1-3)]
    identifier_token_refused[OF shouldKeyword_string[OF assms(4)]]
  by simp

theorem C4_adjacent_string_not_keyword_witness:
  "string startState = None
   \<and> peek \<lparr>line = ''tag'' @ dquote # ''foo'' @ [dquote], pos = 0\<rparr> = Some (CHR ''t'')
   \<and> identifierStart (CHR ''t'')
   \<and> isStringStart (rest (eatWhile identifierPart
        (next_char \<lparr>line = ''tag'' @ dquote # ''foo'' @ [dquote], pos = 0\<rparr>)))
   \<and> token \<lparr>line = ''tag'' @ dquote # ''foo'' @ [dquote], pos = 0\<rparr> startState =
       Inr (Some VariableName, \<lparr>line = ''tag'' @ dquote # ''foo'' @ [dquote], pos = 3\<rparr>,
            startState\<lparr>exprStart := False, macroEligible := False\<rparr>)"
proof -
  have h1: "string startState = None"
    by (simp add: startState_def)
  have h2: "peek \<lparr>line = ''tag'' @ dquote # ''foo'' @ [dquote], pos = 0\<rparr> = Some (CHR ''t'')"
    by (simp add: peek_def rest_def)
  have h3: "identifierStart (CHR ''t'')"
    by (simp add: identifierStart_def)
  have e: "eatWhile identifierPart (next_char \<lparr>line = ''tag'' @ dquote # ''foo'' @ [dquote], pos = 0\<rparr>)
             = \<lparr>line = ''tag'' @ dquote # ''foo'' @ [dquote], pos = 3\<rparr>"
    by code_simp
  have h4: "isStringStart (rest (eatWhile identifierPart
        (next_char \<lparr>line = ''tag'' @ dquote # ''foo'' @ [dquote], pos = 0\<rparr>)))"
    by code_simp
  have s: "lineStart \<lparr>line = ''tag'' @ dquote # ''foo'' @ [dquote], pos = 0\<rparr> startState = startState"
    by (simp add: lineStart_def startState_def sol_def)
  have a: "\<not> afterDot startState" "\<not> inSwap startState"
    by (simp_all add: startState_def)
  from C4_adjacent_string_not_keyword[OF h1 h2 h3 h4] h1 h2 h3 h4 show ?thesis
    unfolding e s using a by simp
qed

text \<open>
  The claim C4 as stated fails: in \<open>foo "bar"\<close>, read from the start state, what follows
  \<open>foo\<close> after the space is a string literal, and \<open>foo\<close> is a keyword.
\<close>
theorem C4_counterexample:
  "isStringStart (dropWhile isSpace
      (rest \<lparr>line = ''foo '' @ dquote # ''bar'' @ [dquote], pos = 3\<rparr>))
   \<and> token \<lparr>line = ''foo '' @ dquote # ''bar'' @ [dquote], pos = 0\<rparr> startState =
       Inr (Some Keyword, \<lparr>line = ''foo '' @ dquote # ''bar'' @ [dquote], pos = 3\<rparr>,
            startState\<lparr>exprStart := True, macroEligible := False, macroLocked := True\<rparr>)"
  by code_simp

subsection \<open>Numbers\<close>

lemma match_decimal_digit:
  "isDigit d \<Longrightarrow>
   match_decimal (d # cs) =
     Some (length (takeWhile isDigit (d # cs))
           + (case dropWhile isDigit (d # cs) of
                [] \<Rightarrow> 0
              | c # r \<Rightarrow> if c = CHR ''.'' then 1 + length (takeWhile isDigit r) else 0))"
  by (cases "dropWhile isDigit cs") (simp_all add: match_decimal_def Let_def del: dropWhile_eq_Nil_conv)

lemma minus_facts:
  "\<not> isSpace (CHR ''-'')" "\<not> isDigit (CHR ''-'')" "CHR ''-'' \<notin> delimiters"
  "\<not> identifierStart (CHR ''-'')"
  by (simp_all add: isSpace_def isDigit_def delimiters_def identifierStart_def)

lemma dispatch_minus:
  assumes "rest stream = CHR ''-'' # cs"
  shows "dispatch (CHR ''-'') stream state =
     (Some Operator, advance 1 stream,
      state\<lparr>exprStart := True, macroEligible := True, afterDot := False, inSwap := False\<rparr>)"
proof -
  note m = match_str_Cons_neq[OF assms]
  have 1: "match_first multiCharOps stream = None"
    by (simp add: multiCharOps_def m)
  have 2: "match_first pairedOps stream = None"
    by (simp add: pairedOps_def m)
  have 3: "match_first singleOps stream = Some (advance 1 stream)"
    using assms by (simp add: singleOps_def m match_str_def)
  show ?thesis
    by (simp add: dispatch_def 1 2 3 minus_facts)
qed

text \<open>
  C7. Outside a string, at a minus sign directly followed by a digit: when \<open>exprStart\<close>
  holds (in the state the token is read in, after the line-start reset) the token is
  one number covering the sign, the digits and the optional fraction; when it does not
  hold, the token is the operator \<open>-\<close> alone and the digits are left in the stream.
\<close>
theorem C7_signed_literal:
  assumes "string state = None" and "rest stream = CHR ''-'' # d # cs" and "isDigit d"
  shows "token stream state =
     (if exprStart (lineStart stream state)
      then Inr (Some Number,
                advance (1 + length (takeWhile isDigit (d # cs))
                         + (case dropWhile isDigit (d # cs) of
                              [] \<Rightarrow> 0
                            | c # r \<Rightarrow> if c = CHR ''.'' then 1 + length (takeWhile isDigit r)
                                       else 0)) stream,
                (lineStart stream state)\<lparr>exprStart := False, macroEligible := False,
                   afterDot := False, inSwap := False\<rparr>)
      else Inr (Some Operator, advance 1 stream,
                (lineStart stream state)\<lparr>exprStart := True, macroEligible := True,
                   afterDot := False, inSwap := False\<rparr>))"
proof (cases "exprStart (lineStart stream state)")
  case True
  have "readNumber stream (lineStart stream state) =
      Some (Number, advance (Suc (the (match_decimal (d # cs)))) stream,
            number_flags (lineStart stream state))"
    using assms True
    by (simp add: readNumber_def match_re_def match_decimal_digit)
  then show ?thesis
    using assms True
    by (simp add: token_def eatSpace_no_space minus_facts match_decimal_digit number_flags_def)
next
  case False
  have n: "readNumber stream (lineStart stream state) = None"
    using assms False
    by (simp add: readNumber_def match_re_def match_decimal_no_digit minus_facts)
  have s: "startString stream (lineStart stream state) = None"
    using assms by (simp add: startString_other)
  show ?thesis
    using assms False n s dispatch_minus[OF assms(2)]
    by (simp add: token_def eatSpace_no_space minus_facts peek_def)
qed

theorem C7_signed_literal_witness:
  "string (startState\<lparr>exprStart := False\<rparr>) = None
   \<and> rest \<lparr>line = ''a = -12.5+b'', pos = 4\<rparr> = CHR ''-'' # CHR ''1'' # ''2.5+b''
   \<and> isDigit (CHR ''1'')
   \<and> token \<lparr>line = ''a = -12.5+b'', pos = 4\<rparr> startState =
       Inr (Some Number, \<lparr>line = ''a = -12.5+b'', pos = 9\<rparr>,
            startState\<lparr>exprStart := False, macroEligible := False\<rparr>)
   \<and> token \<lparr>line = ''a = -12.5+b'', pos = 4\<rparr> (startState\<lparr>exprStart := False\<rparr>) =
       Inr (Some Operator, \<lparr>line = ''a = -12.5+b'', pos = 5\<rparr>, startState)"
proof -
  have h1: "string (startState\<lparr>exprStart := False\<rparr>) = None" "string startState = None"
    by (simp_all add: startState_def)
  have h2: "rest \<lparr>line = ''a = -12.5+b'', pos = 4\<rparr> = CHR ''-'' # CHR ''1'' # ''2.5+b''"
    by (simp add: rest_def)
  have h3: "isDigit (CHR ''1'')"
    by (simp add: isDigit_def)
  have v: "takeWhile isDigit (CHR ''1'' # ''2.5+b'') = ''12''"
    "dropWhile isDigit (CHR ''1'' # ''2.5+b'') = ''.5+b''"
    "takeWhile isDigit ''5+b'' = ''5''"
    by (simp_all add: isDigit_def)
  have l: "lineStart \<lparr>line = ''a = -12.5+b'', pos = 4\<rparr> s = s" for s
    by (simp add: lineStart_def sol_def)
  from C7_signed_literal[OF h1(2) h2 h3] C7_signed_literal[OF h1(1) h2 h3] h1 h2 h3
  show ?thesis
    unfolding l v by (simp add: startState_def advance_def isDigit_def)
qed

subsection \<open>The cursor only moves forward, within the line\<close>

lemma length_rest: "length (rest stream) = length (line stream) - pos stream"
  by (simp add: rest_def)

lemma advance_moves:
  assumes "0 < n" "n \<le> length (rest stream)"
  shows "line (advance n stream) = line stream \<and> pos stream < pos (advance n stream)
     \<and> pos (advance n stream) \<le> length (line stream)"
  using assms by (auto simp: advance_def length_rest)

lemma advance_within:
  assumes "n \<le> length (rest stream)" "pos stream \<le> length (line stream)"
  shows "line (advance n stream) = line stream \<and> pos stream \<le> pos (advance n stream)
     \<and> pos (advance n stream) \<le> length (line stream)"
  using assms by (auto simp: advance_def length_rest)

lemma next_char_moves:
  "pos stream < length (line stream) \<Longrightarrow>
   line (next_char stream) = line stream \<and> pos (next_char stream) = Suc (pos stream)"
  by (simp add: next_char_def advance_def)

lemma next_char_within:
  "line (next_char stream) = line stream \<and> pos stream \<le> pos (next_char stream)
   \<and> (pos stream \<le> length (line stream) \<longrightarrow> pos (next_char stream) \<le> length (line stream))"
  by (simp add: next_char_def advance_def)

lemma eatWhile_within:
  "line (eatWhile p stream) = line stream \<and> pos stream \<le> pos (eatWhile p stream)
   \<and> (pos stream \<le> length (line stream) \<longrightarrow> pos (eatWhile p stream) \<le> length (line stream))"
proof -
  have "length (takeWhile p (rest stream)) \<le> length (rest stream)"
    by (rule length_takeWhile_le)
  then show ?thesis
    by (auto simp: eatWhile_def advance_def length_rest)
qed

lemma match_str_length:
  assumes "match_str pat stream = Some stream'"
  shows "stream' = advance (length pat) stream \<and> length pat \<le> length (rest stream)"
proof -
  from assms have t: "take (length pat) (rest stream) = pat" and s: "stream' = advance (length pat) stream"
    by (auto simp: match_str_def split: if_splits)
  from t have "length (take (length pat) (rest stream)) = length pat"
    by simp
  then have "length pat \<le> length (rest stream)"
    by simp
  with s show ?thesis
    by simp
qed

lemma match_str_moves:
  assumes "match_str pat stream = Some stream'" "pat \<noteq> []"
  shows "line stream' = line stream \<and> pos stream < pos stream'
     \<and> pos stream' \<le> length (line stream)"
  using match_str_length[OF assms(1)] advance_moves[of "length pat" stream] assms(2)
  by simp

lemma match_first_moves:
  assumes "match_first ops stream = Some stream'" "[] \<notin> set ops"
  shows "line stream' = line stream \<and> pos stream < pos stream'
     \<and> pos stream' \<le> length (line stream)"
  using assms
proof (induction ops)
  case Nil
  then show ?case by simp
next
  case (Cons op ops)
  show ?case
  proof (cases "match_str op stream")
    case None
    with Cons show ?thesis by simp
  next
    case (Some x)
    with Cons.prems have "x = stream'" "op \<noteq> []"
      by auto
    with Some match_str_moves show ?thesis
      by blast
  qed
qed

lemma ops_nonempty:
  "[] \<notin> set multiCharOps" "[] \<notin> set pairedOps" "[] \<notin> set singleOps"
  by (simp_all add: multiCharOps_def pairedOps_def singleOps_def)

lemma match_hex_length: "match_hex src = Some n \<Longrightarrow> 0 < n \<and> n \<le> length src"
proof (induction src rule: match_hex.induct)
  case (1 a b cs)
  have "length (takeWhile isHexDigit cs) \<le> length cs"
    by (rule length_takeWhile_le)
  with 1 show ?case
    by (auto split: if_splits)
qed simp_all

lemma match_decimal_length: "match_decimal src = Some n \<Longrightarrow> 0 < n \<and> n \<le> length src"
proof -
  assume a: "match_decimal src = Some n"
  have split: "length src = length (takeWhile isDigit src) + length (dropWhile isDigit src)"
    by (metis length_append takeWhile_dropWhile_id)
  show ?thesis
  proof (cases "dropWhile isDigit src")
    case Nil
    with a split show ?thesis
      by (auto simp: match_decimal_def Let_def split: if_splits simp del: dropWhile_eq_Nil_conv)
  next
    case (Cons c r)
    have "length (takeWhile isDigit r) \<le> length r"
      by (rule length_takeWhile_le)
    with a split Cons show ?thesis
      by (auto simp: match_decimal_def Let_def split: if_splits simp del: dropWhile_eq_Nil_conv)
  qed
qed

lemma match_signed_length: "match_signed src = Some n \<Longrightarrow> 0 < n \<and> n \<le> length src"
  by (cases src) (auto split: if_splits dest: match_decimal_length)

lemma match_leading_dot_length: "match_leading_dot src = Some n \<Longrightarrow> 0 < n \<and> n \<le> length src"
proof (cases src)
  case Nil
  assume "match_leading_dot src = Some n"
  with Nil show ?thesis by simp
next
  case (Cons c cs)
  assume a: "match_leading_dot src = Some n"
  have "length (takeWhile isDigit cs) \<le> length cs"
    by (rule length_takeWhile_le)
  with a Cons show ?thesis
    by (auto split: if_splits)
qed

lemma match_re_moves:
  assumes "match_re re stream = Some stream'" "\<And>src n. re src = Some n \<Longrightarrow> 0 < n \<and> n \<le> length src"
  shows "line stream' = line stream \<and> pos stream < pos stream'
     \<and> pos stream' \<le> length (line stream)"
proof -
  from assms(1) obtain n where n: "re (rest stream) = Some n" "stream' = advance n stream"
    by (auto simp: match_re_def)
  from assms(2)[OF n(1)] show ?thesis
    unfolding n(2) using advance_moves by blast
qed

lemma readNumber_moves:
  assumes "readNumber stream state = Some (sty, stream', state')"
  shows "line stream' = line stream \<and> pos stream < pos stream'
     \<and> pos stream' \<le> length (line stream)"
proof -
  from assms consider "match_re match_hex stream = Some stream'"
    | "match_re match_signed stream = Some stream'"
    | "match_re match_decimal stream = Some stream'"
    | "match_re match_leading_dot stream = Some stream'"
    by (auto simp: readNumber_def split: option.splits if_splits)
  then show ?thesis
  proof cases
    case 1
    then show ?thesis by (rule match_re_moves) (rule match_hex_length)
  next
    case 2
    then show ?thesis by (rule match_re_moves) (rule match_signed_length)
  next
    case 3
    then show ?thesis by (rule match_re_moves) (rule match_decimal_length)
  next
    case 4
    then show ?thesis by (rule match_re_moves) (rule match_leading_dot_length)
  qed
qed

lemma readNumber_state:
  assumes "readNumber stream state = Some (sty, stream', state')"
  shows "sty = Number \<and> state' = number_flags state"
  using assms by (auto simp: readNumber_def split: option.splits if_splits)

lemma match_opener_length:
  assumes "match_opener src = Some (n, q)"
  shows "n + 1 \<le> length src"
proof -
  from assms obtain r where r: "dropWhile (\<lambda>c. c = backslash) src = q # r"
    and n: "n = length (takeWhile (\<lambda>c. c = backslash) src)"
    by (auto simp: match_opener_def split: list.splits if_splits)
  have "length src = length (takeWhile (\<lambda>c. c = backslash) src)
      + length (dropWhile (\<lambda>c. c = backslash) src)"
    by (metis length_append takeWhile_dropWhile_id)
  with r n show ?thesis
    by simp
qed

lemma startString_moves:
  assumes "startString stream state = Some (info, stream', state')"
  shows "line stream' = line stream \<and> pos stream < pos stream'
     \<and> pos stream' \<le> length (line stream)"
proof -
  from assms obtain n q where m: "match_opener (rest stream) = Some (n, q)"
    and s: "stream' = advance (n + 1) stream"
    by (auto simp: startString_def Let_def split: option.splits)
  from match_opener_length[OF m] advance_moves[of "n + 1" stream] show ?thesis
    unfolding s by simp
qed

lemma startString_state:
  assumes "startString stream state = Some (info, stream', state')"
  shows "string state' = Some info \<and> close info = quote info # replicate (slashes info) backslash
     \<and> state' = state\<lparr>string := Some info, exprStart := False, macroEligible := False,
                       afterDot := False, inSwap := False\<rparr>"
  using assms by (auto simp: startString_def Let_def split: option.splits)

subsection \<open>Reading a string\<close>

lemma readString_loop_eol:
  "eol stream \<Longrightarrow> readString_loop info stream state = (String, stream, state)"
  by (simp add: readString_loop.simps)

lemma readString_loop_close:
  "\<not> eol stream \<Longrightarrow> match_str (close info) stream = Some stream' \<Longrightarrow>
   readString_loop info stream state =
     (String, stream', state\<lparr>string := None, exprStart := False, macroEligible := False\<rparr>)"
  by (simp add: readString_loop.simps)

lemma readString_loop_result:
  "readString_loop info stream state = (sty, stream', state') \<Longrightarrow>
   sty = String \<and> line stream' = line stream \<and> pos stream \<le> pos stream'
   \<and> (pos stream \<le> length (line stream) \<longrightarrow> pos stream' \<le> length (line stream))
   \<and> (state' = state \<and> eol stream'
       \<or> state' = state\<lparr>string := None, exprStart := False, macroEligible := False\<rparr>)"
proof (induction info stream state arbitrary: sty stream' state' rule: readString_loop.induct)
  case (1 info stream state)
  show ?case
  proof (cases "eol stream")
    case True
    with "1.prems" show ?thesis
      by (auto simp: readString_loop_eol)
  next
    case False
    show ?thesis
    proof (cases "match_str (close info) stream")
      case (Some x)
      from match_str_length[OF Some] have "line x = line stream \<and> pos stream \<le> pos x
          \<and> pos x \<le> length (line stream)"
        using False advance_within[of "length (close info)" stream] by (simp add: eol_def)
      with "1.prems" False Some show ?thesis
        by (simp add: readString_loop_close)
    next
      case None
      let ?esc = "if \<not> raw info \<and> escape info \<noteq> None \<and> escape info \<noteq> Some []
                  then match_str (the (escape info)) stream else None"
      show ?thesis
      proof (cases ?esc)
        case N2: None
        from "1.prems" False None N2
        have r: "readString_loop info (next_char stream) state = (sty, stream', state')"
          by (subst (asm) readString_loop.simps) simp
        from "1.IH"(1)[OF False None N2 r] next_char_within[of stream] show ?thesis
          by auto
      next
        case (Some x2)
        let ?s2 = "if \<not> eol x2 then next_char x2 else x2"
        from "1.prems" False None Some
        have r: "readString_loop info ?s2 state = (sty, stream', state')"
          by (subst (asm) readString_loop.simps) simp
        from Some have m: "match_str (the (escape info)) stream = Some x2"
          by (simp split: if_splits)
        from match_str_length[OF m] have x2: "line x2 = line stream \<and> pos stream \<le> pos x2
            \<and> pos x2 \<le> length (line stream)"
          using False advance_within[of "length (the (escape info))" stream] by (simp add: eol_def)
        with next_char_within[of x2] have "line ?s2 = line stream \<and> pos stream \<le> pos ?s2
            \<and> pos ?s2 \<le> length (line stream)"
          by auto
        with "1.IH"(2)[OF False None Some r] show ?thesis
          by auto
      qed
    qed
  qed
qed

lemma readString_loop_progress:
  assumes "readString_loop info stream state = (sty, stream', state')"
    and "\<not> eol stream" and "close info \<noteq> []"
  shows "pos stream < pos stream'"
proof (cases "match_str (close info) stream")
  case (Some x)
  with assms match_str_moves[OF Some assms(3)] show ?thesis
    by (simp add: readString_loop_close)
next
  case None
  let ?esc = "if \<not> raw info \<and> escape info \<noteq> None \<and> escape info \<noteq> Some []
              then match_str (the (escape info)) stream else None"
  show ?thesis
  proof (cases ?esc)
    case N2: None
    from assms None N2
    have r: "readString_loop info (next_char stream) state = (sty, stream', state')"
      by (subst (asm) readString_loop.simps) simp
    from readString_loop_result[OF r] next_char_moves[of stream] assms(2) show ?thesis
      by (simp add: eol_def)
  next
    case (Some x2)
    let ?s2 = "if \<not> eol x2 then next_char x2 else x2"
    from assms None Some
    have r: "readString_loop info ?s2 state = (sty, stream', state')"
      by (subst (asm) readString_loop.simps) simp
    from Some have m: "match_str (the (escape info)) stream = Some x2"
      and ne: "the (escape info) \<noteq> []"
      by (auto split: if_splits)
    from match_str_moves[OF m ne] next_char_within[of x2] have "pos stream < pos ?s2"
      by auto
    with readString_loop_result[OF r] show ?thesis
      by simp
  qed
qed

subsection \<open>The dispatch\<close>

lemma bracket_token_result:
  "bracket_token c stream state = (sty, stream', state') \<Longrightarrow>
   sty = Some Bracket \<and> stream' = next_char stream \<and> string state' = string state"
  by (auto simp: bracket_token_def Let_def)

lemma identifier_token_result:
  "identifier_token stream state = (sty, stream', state') \<Longrightarrow>
   sty \<in> {Some Keyword, Some PropertyName, Some VariableNameSpecial, Some VariableName}
   \<and> stream' = eatWhile identifierPart (next_char stream) \<and> string state' = string state
   \<and> macroLockStack state' = macroLockStack state"
  by (auto simp: identifier_token_def Let_def split: if_splits)

lemma dispatch_moves:
  assumes "dispatch c stream state = (sty, stream', state')" "rest stream = c # cs"
  shows "line stream' = line stream \<and> pos stream < pos stream'
     \<and> pos stream' \<le> length (line stream)"
proof -
  have p: "pos stream < length (line stream)"
    using assms(2) by (rule rest_Cons_pos)
  note n = next_char_moves[OF p]
  have e: "line (eatWhile identifierPart (next_char stream)) = line stream
      \<and> pos stream < pos (eatWhile identifierPart (next_char stream))
      \<and> pos (eatWhile identifierPart (next_char stream)) \<le> length (line stream)"
    using eatWhile_within[of identifierPart "next_char stream"] n p by auto
  have k: "line (skipToEnd stream) = line stream \<and> pos stream < pos (skipToEnd stream)
      \<and> pos (skipToEnd stream) \<le> length (line stream)"
    using p by (simp add: skipToEnd_def)
  have m: "match_first ops stream = Some x \<Longrightarrow> ops \<in> {multiCharOps, pairedOps, singleOps} \<Longrightarrow>
      line x = line stream \<and> pos stream < pos x \<and> pos x \<le> length (line stream)" for ops x
    using match_first_moves[of ops stream x] ops_nonempty by auto
  from assms(1) consider "stream' = skipToEnd stream" | "stream' = next_char stream"
    | "stream' = eatWhile identifierPart (next_char stream)"
    | ops where "match_first ops stream = Some stream'" "ops \<in> {multiCharOps, pairedOps, singleOps}"
    by (auto simp: dispatch_def Let_def split: if_splits option.splits
        dest: bracket_token_result identifier_token_result)
  then show ?thesis
  proof cases
    case 1
    with k show ?thesis by simp
  next
    case 2
    with n p show ?thesis by simp
  next
    case 3
    with e show ?thesis by simp
  next
    case 4
    with m show ?thesis by blast
  qed
qed

lemma dispatch_string:
  "dispatch c stream state = (sty, stream', state') \<Longrightarrow> string state' = string state"
  by (auto simp: dispatch_def Let_def split: if_splits option.splits
      dest: bracket_token_result identifier_token_result)

subsection \<open>The shape of a call of \<open>token\<close>\<close>

lemma readString_Some:
  "string state = Some info \<Longrightarrow> readString stream state = Inr (readString_loop info stream state)"
  by (simp add: readString_def)

lemma token_cases [consumes 1, case_names in_string space number open_string at_end char]:
  assumes "token stream state = Inr (sty, stream', state')"
  obtains info where "string state = Some info"
      "readString_loop info stream state = (String, stream', state')" "sty = Some String"
  | "string state = None" "eatSpace stream = (True, stream')" "sty = None"
      "state' = lineStart stream state"
  | "string state = None" "sty = Some Number"
      "readNumber stream (lineStart stream state) = Some (Number, stream', state')"
  | info stream1 state1 where "string state = None" "sty = Some String"
      "startString stream (lineStart stream state) = Some (info, stream1, state1)"
      "readString_loop info stream1 state1 = (String, stream', state')"
  | "string state = None" "peek stream = None" "sty = None" "stream' = stream"
      "state' = lineStart stream state"
  | c where "string state = None" "peek stream = Some c" "fst (eatSpace stream) = False"
      "readNumber stream (lineStart stream state) = None"
      "startString stream (lineStart stream state) = None"
      "dispatch c stream (lineStart stream state) = (sty, stream', state')"
proof (cases "string state")
  case (Some info)
  obtain a b c where r: "readString_loop info stream state = (a, b, c)"
    by (cases "readString_loop info stream state") auto
  from readString_loop_result[OF r] have a: "a = String"
    by simp
  from assms Some r a have "sty = Some String" "b = stream'" "c = state'"
    by (simp_all add: token_def readString_Some)
  with r a Some show ?thesis
    by (intro that(1)) simp_all
next
  case None
  note str = None
  let ?s = "lineStart stream state"
  obtain w1 w2 where sp: "eatSpace stream = (w1, w2)"
    by (cases "eatSpace stream") auto
  show ?thesis
  proof (cases w1)
    case True
    with assms str sp have "sty = None" "stream' = w2" "state' = ?s"
      by (simp_all add: token_def)
    with str sp True show ?thesis
      by (intro that(2)) simp_all
  next
    case False
    note w1 = False
    show ?thesis
    proof (cases "readNumber stream ?s")
      case (Some r)
      obtain a b c where r: "r = (a, b, c)"
        by (cases r) auto
      from readNumber_state[of stream ?s a b c] Some r have a: "a = Number"
        by simp
      from assms str sp w1 Some r have "sty = Some a" "stream' = b" "state' = c"
        by (simp_all add: token_def)
      with str Some r a show ?thesis
        by (intro that(3)) simp_all
    next
      case None
      note num = None
      show ?thesis
      proof (cases "startString stream ?s")
        case (Some r)
        obtain info stream1 state1 where r: "r = (info, stream1, state1)"
          by (cases r) auto
        from startString_state[of stream ?s info stream1 state1] Some r
        have i: "string state1 = Some info"
          by simp
        obtain a b c where l: "readString_loop info stream1 state1 = (a, b, c)"
          by (cases "readString_loop info stream1 state1") auto
        from readString_loop_result[OF l] have a: "a = String"
          by simp
        from assms str sp w1 num Some r l i have "sty = Some a" "stream' = b" "state' = c"
          by (simp_all add: token_def readString_Some)
        with str Some r l a show ?thesis
          by (intro that(4)[of info stream1 state1]) simp_all
      next
        case None
        note st = None
        show ?thesis
        proof (cases "peek stream")
          case None
          with assms str sp w1 num st have "sty = None" "stream' = stream" "state' = ?s"
            by (auto simp: token_def)
          with str None show ?thesis
            by (intro that(5)) simp_all
        next
          case (Some c)
          with assms str sp w1 num st have "dispatch c stream ?s = (sty, stream', state')"
            by (simp add: token_def)
          with str Some sp w1 num st show ?thesis
            by (intro that(6)[of c]) simp_all
        qed
      qed
    qed
  qed
qed

lemma token_Inr: "\<exists>r. token stream state = Inr r"
proof (cases "string state")
  case (Some info)
  then show ?thesis
    by (cases "readString_loop info stream state") (simp add: token_def readString_Some)
next
  case None
  note str = None
  let ?s = "lineStart stream state"
  obtain w1 w2 where sp: "eatSpace stream = (w1, w2)"
    by (cases "eatSpace stream") auto
  show ?thesis
  proof (cases w1)
    case True
    with str sp show ?thesis
      by (simp add: token_def)
  next
    case False
    note w1 = False
    show ?thesis
    proof (cases "readNumber stream ?s")
      case (Some r)
      with str sp w1 show ?thesis
        by (cases r) (simp add: token_def)
    next
      case None
      note num = None
      show ?thesis
      proof (cases "startString stream ?s")
        case (Some r)
        obtain info stream1 state1 where r: "r = (info, stream1, state1)"
          by (cases r) auto
        from startString_state[of stream ?s info stream1 state1] Some r
        have "string state1 = Some info"
          by simp
        with str sp w1 num Some r show ?thesis
          by (cases "readString_loop info stream1 state1") (simp add: token_def readString_Some)
      next
        case None
        with str sp w1 num show ?thesis
          by (cases "peek stream") (simp_all add: token_def del: split_paired_Ex)
      qed
    qed
  qed
qed

lemma token_total: "\<exists>sty stream' state'. token stream state = Inr (sty, stream', state')"
  using token_Inr[of stream state] by (metis prod_cases3)

subsection \<open>Totality and progress\<close>

lemma lineStart_string [simp]: "string (lineStart stream state) = string state"
  by (simp add: lineStart_def)

lemma lineStart_stack [simp]: "macroLockStack (lineStart stream state) = macroLockStack state"
  by (simp add: lineStart_def)

lemma token_string:
  assumes "token stream state = Inr (sty, stream', state')" "string state' = Some info"
  shows "string state = Some info
     \<or> (close info = quote info # replicate (slashes info) backslash)"
  using assms(1)
proof (cases rule: token_cases)
  case (in_string i)
  from readString_loop_result[OF in_string(2)] assms(2) show ?thesis
    by auto
next
  case space
  with assms(2) show ?thesis by simp
next
  case number
  from readNumber_state[OF number(3)] assms(2) show ?thesis
    by (simp add: number_flags_def)
next
  case (open_string i stream1 state1)
  from readString_loop_result[OF open_string(4)] assms(2) have "string state1 = Some info"
    by auto
  with startString_state[OF open_string(3)] show ?thesis
    by simp
next
  case at_end
  with assms(2) show ?thesis by simp
next
  case (char c)
  from dispatch_string[OF char(6)] assms(2) show ?thesis
    by simp
qed

lemma reachable_close:
  "reachable state \<Longrightarrow> string state = Some info \<Longrightarrow>
   close info = quote info # replicate (slashes info) backslash"
proof (induction arbitrary: info rule: reachable.induct)
  case start
  then show ?case by (simp add: startState_def)
next
  case (blank state)
  then show ?case by (simp add: blankLine_def)
next
  case (tok state stream sty stream' state')
  from token_string[OF tok.hyps(2) tok.prems] tok.IH show ?case
    by blast
qed

lemma token_at_end:
  assumes "\<not> pos stream < length (line stream)"
  shows "\<exists>sty state'. token stream state = Inr (sty, stream, state')"
proof -
  from assms have e: "eol stream" and r: "rest stream = []"
    by (simp_all add: eol_def rest_def)
  show ?thesis
  proof (cases "string state")
    case (Some info)
    with e show ?thesis
      by (simp add: token_def readString_Some readString_loop_eol)
  next
    case None
    have "readNumber stream s = None" "startString stream s = None" for s
      using r by (simp_all add: readNumber_def match_re_def match_decimal_def
          startString_def match_opener_def)
    with None r show ?thesis
      by (simp add: token_def eatSpace_def peek_def)
  qed
qed

lemma token_moves:
  assumes "token stream state = Inr (sty, stream', state')"
    and "pos stream < length (line stream)"
    and "\<And>info. string state = Some info \<Longrightarrow> close info \<noteq> []"
  shows "line stream' = line stream \<and> pos stream < pos stream'
     \<and> pos stream' \<le> length (line stream)"
  using assms(1)
proof (cases rule: token_cases)
  case (in_string info)
  from readString_loop_result[OF in_string(2)]
    readString_loop_progress[OF in_string(2) _ assms(3)[OF in_string(1)]] assms(2)
  show ?thesis
    by (simp add: eol_def)
next
  case space
  then have s: "stream' = advance (length (takeWhile isSpace (rest stream))) stream"
    and n: "0 < length (takeWhile isSpace (rest stream))"
    by (auto simp: eatSpace_def Let_def)
  have "length (takeWhile isSpace (rest stream)) \<le> length (rest stream)"
    by (rule length_takeWhile_le)
  from advance_moves[OF n this] s show ?thesis
    by simp
next
  case number
  from readNumber_moves[OF number(3)] show ?thesis .
next
  case (open_string info stream1 state1)
  from startString_moves[OF open_string(3)] readString_loop_result[OF open_string(4)]
  show ?thesis
    by simp
next
  case at_end
  with assms(2) show ?thesis
    by (simp add: peek_eq_None rest_def)
next
  case (char c)
  from char(2) obtain cs where "rest stream = c # cs"
    by (auto simp: peek_eq_Some)
  from dispatch_moves[OF char(6) this] show ?thesis .
qed





text \<open>
  C9. In every state the lexer can be in, a call of \<open>token\<close> with the cursor inside the
  line returns with the cursor further on, still within the same line; a call with the
  cursor at the end of the line returns with the stream as it was.
\<close>
theorem C9_forward_progress:
  assumes "reachable state"
  shows "\<exists>sty stream' state'.
     token stream state = Inr (sty, stream', state') \<and> line stream' = line stream
     \<and> (if pos stream < length (line stream)
         then pos stream < pos stream' \<and> pos stream' \<le> length (line stream)
         else stream' = stream)"
proof (cases "pos stream < length (line stream)")
  case True
  obtain sty stream' state' where t: "token stream state = Inr (sty, stream', state')"
    using token_total by blast
  have "close info \<noteq> []" if "string state = Some info" for info
    using reachable_close[OF assms that] by simp
  from token_moves[OF t True this] t True show ?thesis
    by auto
next
  case False
  with token_at_end[OF False, of state] show ?thesis
    by auto
qed

theorem C9_forward_progress_witness:
  "reachable startState
   \<and> token \<lparr>line = ''foo bar'', pos = 3\<rparr> startState
       = Inr (None, \<lparr>line = ''foo bar'', pos = 4\<rparr>, startState)
   \<and> (\<exists>sty stream' state'.
        token \<lparr>line = ''foo bar'', pos = 3\<rparr> startState = Inr (sty, stream', state')
        \<and> line stream' = ''foo bar'' \<and> 3 < pos stream' \<and> pos stream' \<le> 7)"
proof -
  have t: "token \<lparr>line = ''foo bar'', pos = 3\<rparr> startState
       = Inr (None, \<lparr>line = ''foo bar'', pos = 4\<rparr>, startState)"
    by code_simp
  from C9_forward_progress[OF reachable.start, of "\<lparr>line = ''foo bar'', pos = 3\<rparr>"] t
  show ?thesis
    by (simp add: reachable.start)
qed

subsection \<open>Strings that stay open\<close>

lemma rest_later:
  assumes "line s2 = line s" "pos s \<le> pos s2"
  shows "rest s2 = drop (pos s2 - pos s) (rest s)"
  using assms by (simp add: rest_def)

lemma match_str_prefix:
  "match_str pat stream = Some stream' \<Longrightarrow> prefix pat (rest stream)"
  by (metis match_str_def option.distinct(1) take_is_prefix)

lemma prefix_match_str:
  "prefix pat (rest stream) \<Longrightarrow> match_str pat stream = Some (advance (length pat) stream)"
  by (auto simp: match_str_def prefix_def)

lemma no_close_later:
  assumes "\<forall>i<length (rest s). \<not> prefix pat (drop i (rest s))"
    and "line s2 = line s" "pos s \<le> pos s2"
  shows "\<forall>i<length (rest s2). \<not> prefix pat (drop i (rest s2))"
proof (intro allI impI)
  fix i
  assume i: "i < length (rest s2)"
  have r: "rest s2 = drop (pos s2 - pos s) (rest s)"
    using assms(2,3) by (rule rest_later)
  from i have "i + (pos s2 - pos s) < length (rest s)"
    unfolding r by simp
  with assms(1) have "\<not> prefix pat (drop (i + (pos s2 - pos s)) (rest s))"
    by blast
  then show "\<not> prefix pat (drop i (rest s2))"
    unfolding r by simp
qed

lemma readString_loop_no_close:
  assumes "\<forall>i<length (rest stream). \<not> prefix (close info) (drop i (rest stream))"
    and "pos stream \<le> length (line stream)"
  shows "readString_loop info stream state = (String, skipToEnd stream, state)"
  using assms
proof (induction info stream state rule: readString_loop.induct)
  case (1 info stream state)
  show ?case
  proof (cases "eol stream")
    case True
    with "1.prems"(2) have "skipToEnd stream = stream"
      by (simp add: eol_def skipToEnd_def)
    with True show ?thesis
      by (simp add: readString_loop_eol)
  next
    case False
    then have "0 < length (rest stream)"
      by (simp add: eol_def length_rest)
    with "1.prems"(1) have "\<not> prefix (close info) (rest stream)"
      by fastforce
    then have None: "match_str (close info) stream = None"
      using match_str_prefix by (cases "match_str (close info) stream") auto
    let ?esc = "if \<not> raw info \<and> escape info \<noteq> None \<and> escape info \<noteq> Some []
                then match_str (the (escape info)) stream else None"
    show ?thesis
    proof (cases ?esc)
      case N2: None
      let ?s2 = "next_char stream"
      have s2: "line ?s2 = line stream" "pos stream \<le> pos ?s2" "pos ?s2 \<le> length (line stream)"
        using next_char_within[of stream] "1.prems"(2) by auto
      have "readString_loop info ?s2 state = (String, skipToEnd ?s2, state)"
        using "1.IH"(1)[OF False None N2 no_close_later[OF "1.prems"(1) s2(1,2)]] s2 by simp
      moreover have "skipToEnd ?s2 = skipToEnd stream"
        using s2 by (simp add: skipToEnd_def next_char_def advance_def)
      moreover have "readString_loop info stream state = readString_loop info ?s2 state"
        using False None N2 by (subst readString_loop.simps) simp
      ultimately show ?thesis
        by simp
    next
      case (Some x2)
      let ?s2 = "if \<not> eol x2 then next_char x2 else x2"
      from Some have m: "match_str (the (escape info)) stream = Some x2"
        by (simp split: if_splits)
      from match_str_length[OF m] have x2: "x2 = advance (length (the (escape info))) stream"
        "line x2 = line stream \<and> pos stream \<le> pos x2 \<and> pos x2 \<le> length (line stream)"
        using "1.prems"(2) advance_within[of "length (the (escape info))" stream] by simp_all
      with next_char_within[of x2]
      have s2: "line ?s2 = line stream" "pos stream \<le> pos ?s2" "pos ?s2 \<le> length (line stream)"
        by auto
      have "readString_loop info ?s2 state = (String, skipToEnd ?s2, state)"
        using "1.IH"(2)[OF False None Some no_close_later[OF "1.prems"(1) s2(1,2)]] s2 by simp
      moreover have "skipToEnd ?s2 = skipToEnd stream"
        using s2(1) x2(1) by (simp add: skipToEnd_def next_char_def advance_def)
      moreover have "readString_loop info stream state = readString_loop info ?s2 state"
        using False None Some by (subst readString_loop.simps) simp
      ultimately show ?thesis
        by simp
    qed
  qed
qed

lemma token_in_string:
  "string state = Some info \<Longrightarrow>
   token stream state =
     Inr (Some (fst (readString_loop info stream state)), snd (readString_loop info stream state))"
  by (cases "readString_loop info stream state") (simp add: token_def readString_Some)

text \<open>
  C6. (1) Inside a string, when the close sequence occurs nowhere in the rest of the
  line, the call returns \<open>String\<close> with the cursor at the end of the line and the state
  (the string context and every flag) as it was. (2) Whenever a call returns with a
  string context in the state, the token was \<open>String\<close>, the cursor is at the end of the
  line, and a context that was already open before the call is returned with the whole
  state unchanged. (3) On the next line, read from its first character, the call is
  the string reader with that same context: it returns \<open>String\<close>, and the state is
  either unchanged or has the context removed and \<open>exprStart\<close>, \<open>macroEligible\<close>
  false; the line-start reset of the other flags does not happen.
\<close>
theorem C6_unterminated_string:
  "(string state = Some info \<and> pos stream \<le> length (line stream)
      \<and> (\<forall>i<length (rest stream). \<not> prefix (close info) (drop i (rest stream)))
    \<longrightarrow> token stream state = Inr (Some String, skipToEnd stream, state))
   \<and> (token stream state = Inr (sty, stream', state') \<and> string state' = Some info
    \<longrightarrow> sty = Some String \<and> eol stream' \<and> line stream' = line stream
        \<and> (string state \<noteq> None \<longrightarrow> state' = state)
        \<and> (\<exists>stream'' state''.
              token \<lparr>line = next_line, pos = 0\<rparr> state' = Inr (Some String, stream'', state'')
              \<and> readString_loop info \<lparr>line = next_line, pos = 0\<rparr> state' = (String, stream'', state'')
              \<and> (state'' = state'
                  \<or> state'' = state'\<lparr>string := None, exprStart := False, macroEligible := False\<rparr>)))"
proof -
  have part1: "token stream state = Inr (Some String, skipToEnd stream, state)"
    if a: "string state = Some info \<and> pos stream \<le> length (line stream)
      \<and> (\<forall>i<length (rest stream). \<not> prefix (close info) (drop i (rest stream)))"
  proof -
    from a have "readString_loop info stream state = (String, skipToEnd stream, state)"
      by (intro readString_loop_no_close) simp_all
    with a show ?thesis
      by (simp add: token_in_string)
  qed
  have part2: "sty = Some String \<and> eol stream' \<and> line stream' = line stream
        \<and> (string state \<noteq> None \<longrightarrow> state' = state)
        \<and> (\<exists>stream'' state''.
              token \<lparr>line = next_line, pos = 0\<rparr> state' = Inr (Some String, stream'', state'')
              \<and> readString_loop info \<lparr>line = next_line, pos = 0\<rparr> state' = (String, stream'', state'')
              \<and> (state'' = state'
                  \<or> state'' = state'\<lparr>string := None, exprStart := False, macroEligible := False\<rparr>))"
    if a: "token stream state = Inr (sty, stream', state') \<and> string state' = Some info"
  proof -
    from a have t: "token stream state = Inr (sty, stream', state')" and i: "string state' = Some info"
      by simp_all
    from t have first: "sty = Some String \<and> eol stream' \<and> line stream' = line stream
        \<and> (string state \<noteq> None \<longrightarrow> state' = state)"
    proof (cases rule: token_cases)
      case (in_string j)
      from readString_loop_result[OF in_string(2)] i in_string(3) show ?thesis
        by auto
    next
      case space
      with i show ?thesis by simp
    next
      case number
      from readNumber_state[OF number(3)] i number(1) show ?thesis
        by (simp add: number_flags_def)
    next
      case (open_string j stream1 state1)
      from readString_loop_result[OF open_string(4)] startString_moves[OF open_string(3)] i
        open_string(1,2)
      show ?thesis
        by auto
    next
      case at_end
      with i show ?thesis by simp
    next
      case (char c)
      from dispatch_string[OF char(6)] i char(1) show ?thesis
        by simp
    qed
    obtain a b c where r: "readString_loop info \<lparr>line = next_line, pos = 0\<rparr> state' = (a, b, c)"
      by (cases "readString_loop info \<lparr>line = next_line, pos = 0\<rparr> state'") auto
    from readString_loop_result[OF r] r token_in_string[OF i, of "\<lparr>line = next_line, pos = 0\<rparr>"]
    have "\<exists>stream'' state''.
        token \<lparr>line = next_line, pos = 0\<rparr> state' = Inr (Some String, stream'', state'')
        \<and> readString_loop info \<lparr>line = next_line, pos = 0\<rparr> state' = (String, stream'', state'')
        \<and> (state'' = state'
            \<or> state'' = state'\<lparr>string := None, exprStart := False, macroEligible := False\<rparr>)"
      by auto
    with first show ?thesis
      by blast
  qed
  from part1 part2 show ?thesis
    by blast
qed

lemma all_less_list_all: "(\<forall>i<n. P i) \<longleftrightarrow> list_all P [0..<n]"
  by (auto simp: list_all_iff)

theorem C6_unterminated_string_witness:
  "token \<lparr>line = ''say '' @ dquote # ''abc'', pos = 4\<rparr>
     \<lparr>string = None, exprStart = True, macroEligible = False, afterDot = False, inSwap = False,
        macroLocked = True, macroLockStack = [False]\<rparr>
   = Inr (Some String, \<lparr>line = ''say '' @ dquote # ''abc'', pos = 8\<rparr>,
     \<lparr>string = Some \<lparr>quote = dquote, slashes = 0, raw = False, close = [dquote], escape = Some [backslash]\<rparr>,
        exprStart = False, macroEligible = False, afterDot = False, inSwap = False,
        macroLocked = True, macroLockStack = [False]\<rparr>)
   \<and> token \<lparr>line = ''more'', pos = 0\<rparr>
     \<lparr>string = Some \<lparr>quote = dquote, slashes = 0, raw = False, close = [dquote], escape = Some [backslash]\<rparr>,
        exprStart = False, macroEligible = False, afterDot = False, inSwap = False,
        macroLocked = True, macroLockStack = [False]\<rparr>
   = Inr (Some String, \<lparr>line = ''more'', pos = 4\<rparr>,
     \<lparr>string = Some \<lparr>quote = dquote, slashes = 0, raw = False, close = [dquote], escape = Some [backslash]\<rparr>,
        exprStart = False, macroEligible = False, afterDot = False, inSwap = False,
        macroLocked = True, macroLockStack = [False]\<rparr>)
   \<and> token \<lparr>line = ''de'' @ dquote # '' f'', pos = 0\<rparr>
     \<lparr>string = Some \<lparr>quote = dquote, slashes = 0, raw = False, close = [dquote], escape = Some [backslash]\<rparr>,
        exprStart = False, macroEligible = False, afterDot = False, inSwap = False,
        macroLocked = True, macroLockStack = [False]\<rparr>
   = Inr (Some String, \<lparr>line = ''de'' @ dquote # '' f'', pos = 3\<rparr>,
     \<lparr>string = Some \<lparr>quote = dquote, slashes = 0, raw = False, close = [dquote], escape = Some [backslash]\<rparr>,
        exprStart = False, macroEligible = False, afterDot = False, inSwap = False,
        macroLocked = True, macroLockStack = [False]\<rparr>\<lparr>string := None\<rparr>)"
proof -
  let ?info = "\<lparr>quote = dquote, slashes = 0, raw = False, close = [dquote], escape = Some [backslash]\<rparr>"
  let ?s0 = "\<lparr>string = None, exprStart = True, macroEligible = False, afterDot = False, inSwap = False,
        macroLocked = True, macroLockStack = [False]\<rparr>"
  let ?s1 = "\<lparr>string = Some \<lparr>quote = dquote, slashes = 0, raw = False, close = [dquote], escape = Some [backslash]\<rparr>,
        exprStart = False, macroEligible = False, afterDot = False, inSwap = False,
        macroLocked = True, macroLockStack = [False]\<rparr>"
  have t1: "token \<lparr>line = ''say '' @ dquote # ''abc'', pos = 4\<rparr> ?s0 = Inr (Some String, \<lparr>line = ''say '' @ dquote # ''abc'', pos = 8\<rparr>, ?s1)"
    by code_simp
  have i: "string ?s1 = Some ?info"
    by simp
  have h: "string ?s1 = Some ?info \<and> pos \<lparr>line = ''more'', pos = 0\<rparr> \<le> length (line \<lparr>line = ''more'', pos = 0\<rparr>)
      \<and> (\<forall>i<length (rest \<lparr>line = ''more'', pos = 0\<rparr>). \<not> prefix (close ?info) (drop i (rest \<lparr>line = ''more'', pos = 0\<rparr>)))"
    unfolding all_less_list_all by code_simp
  have k: "skipToEnd \<lparr>line = ''more'', pos = 0\<rparr> = \<lparr>line = ''more'', pos = 4\<rparr>"
    by (simp add: skipToEnd_def)
  have r: "readString_loop ?info \<lparr>line = ''de'' @ dquote # '' f'', pos = 0\<rparr> ?s1 = (String, \<lparr>line = ''de'' @ dquote # '' f'', pos = 3\<rparr>, ?s1\<lparr>string := None\<rparr>)"
    by code_simp
  note c6a = C6_unterminated_string[where state = ?s1 and info = ?info
      and stream = "\<lparr>line = ''more'', pos = 0\<rparr>"]
  note c6b = C6_unterminated_string[where state = ?s0 and info = ?info
      and stream = "\<lparr>line = ''say '' @ dquote # ''abc'', pos = 4\<rparr>" and sty = "Some String"
      and stream' = "\<lparr>line = ''say '' @ dquote # ''abc'', pos = 8\<rparr>" and state' = ?s1
      and next_line = "''de'' @ dquote # '' f''"]
  from c6a[THEN conjunct1, THEN mp, OF h]
  have t3: "token \<lparr>line = ''more'', pos = 0\<rparr> ?s1 = Inr (Some String, \<lparr>line = ''more'', pos = 4\<rparr>, ?s1)"
    unfolding k .
  from c6b[THEN conjunct2, THEN mp, OF conjI[OF t1 i]]
  obtain x y where xy: "token \<lparr>line = ''de'' @ dquote # '' f'', pos = 0\<rparr> ?s1 = Inr (Some String, x, y)"
    "readString_loop ?info \<lparr>line = ''de'' @ dquote # '' f'', pos = 0\<rparr> ?s1 = (String, x, y)"
    by blast
  from xy(2) have "x = \<lparr>line = ''de'' @ dquote # '' f'', pos = 3\<rparr>" "y = ?s1\<lparr>string := None\<rparr>"
    unfolding r by simp_all
  with xy(1) have t2: "token \<lparr>line = ''de'' @ dquote # '' f'', pos = 0\<rparr> ?s1 = Inr (Some String, \<lparr>line = ''de'' @ dquote # '' f'', pos = 3\<rparr>, ?s1\<lparr>string := None\<rparr>)"
    by simp
  from t1 t2 t3 show ?thesis
    by (intro conjI)
qed

subsection \<open>Closing a string\<close>

lemma advance_advance: "advance m (advance n stream) = advance (n + m) stream"
  by (simp add: advance_def add.assoc)

lemma readString_loop_first_close:
  assumes "rest stream = pre @ close info @ post" "close info \<noteq> []"
    and "\<forall>i<length pre. \<not> prefix (close info) (drop i (rest stream))"
    and "raw info \<or> escape info = None
         \<or> (\<forall>i<length pre. \<not> prefix (the (escape info)) (drop i (rest stream)))"
  shows "readString_loop info stream state =
     (String, advance (length pre + length (close info)) stream,
      state\<lparr>string := None, exprStart := False, macroEligible := False\<rparr>)"
  using assms
proof (induction pre arbitrary: stream)
  case Nil
  from Nil.prems(1,2) have ne: "\<not> eol stream"
    by (cases "close info") (auto simp: eol_def dest: rest_Cons_pos)
  from Nil.prems(1) have "prefix (close info) (rest stream)"
    by simp
  from readString_loop_close[OF ne prefix_match_str[OF this]] show ?case
    by simp
next
  case (Cons a pre)
  from Cons.prems(1) have ne: "\<not> eol stream"
    by (auto simp: eol_def dest: rest_Cons_pos)
  from Cons.prems(3) have "\<not> prefix (close info) (rest stream)"
    by fastforce
  then have c: "match_str (close info) stream = None"
    using match_str_prefix by (cases "match_str (close info) stream") auto
  have e: "(if \<not> raw info \<and> escape info \<noteq> None \<and> escape info \<noteq> Some []
            then match_str (the (escape info)) stream else None) = None"
  proof (cases "\<not> raw info \<and> escape info \<noteq> None \<and> escape info \<noteq> Some []")
    case True
    with Cons.prems(4) have "\<not> prefix (the (escape info)) (rest stream)"
      by fastforce
    then have "match_str (the (escape info)) stream = None"
      using match_str_prefix by (cases "match_str (the (escape info)) stream") auto
    with True show ?thesis
      by simp
  next
    case False
    then show ?thesis
      by auto
  qed
  have n: "next_char stream = advance 1 stream"
    using Cons.prems(1) by (simp add: next_char_Cons)
  have step: "readString_loop info stream state = readString_loop info (advance 1 stream) state"
    using ne c e n by (subst readString_loop.simps) simp
  have r: "rest (advance 1 stream) = pre @ close info @ post"
    using Cons.prems(1) by (simp add: rest_advance)
  have d: "drop i (rest (advance 1 stream)) = drop (Suc i) (rest stream)" for i
    by (simp add: rest_advance)
  have 3: "\<forall>i<length pre. \<not> prefix (close info) (drop i (rest (advance 1 stream)))"
    using Cons.prems(3) unfolding d by auto
  have 4: "raw info \<or> escape info = None
      \<or> (\<forall>i<length pre. \<not> prefix (the (escape info)) (drop i (rest (advance 1 stream))))"
    using Cons.prems(4) unfolding d by auto
  from Cons.IH[OF r Cons.prems(2) 3 4] show ?case
    unfolding step by (simp add: advance_advance)
qed

lemma match_opener_replicate:
  assumes "q = dquote \<or> q = backtick"
  shows "match_opener (replicate k backslash @ q # xs) = Some (k, q)"
proof -
  from assms have q: "q \<noteq> backslash"
    by auto
  have "takeWhile (\<lambda>c. c = backslash) (replicate k backslash @ q # xs) = replicate k backslash"
    using q by (induction k) auto
  moreover have "dropWhile (\<lambda>c. c = backslash) (replicate k backslash @ q # xs) = q # xs"
    using q by (induction k) auto
  ultimately show ?thesis
    using assms by (auto simp: match_opener_def)
qed

lemma prefix_replicate_before:
  assumes "prefix (replicate n b) (xs @ q # r)" "q \<noteq> b"
  shows "prefix (replicate n b) xs"
proof -
  from assms(1) consider "prefix (replicate n b) xs"
    | us where "replicate n b = xs @ us" "prefix us (q # r)"
    by (auto simp: prefix_append)
  then show ?thesis
  proof cases
    case 1
    then show ?thesis .
  next
    case 2
    show ?thesis
    proof (cases us)
      case Nil
      with 2(1) show ?thesis
        by simp
    next
      case (Cons u us')
      with 2(2) have "u = q"
        by simp
      with Cons 2(1) have "q \<in> set (replicate n b)"
        by simp
      with assms(2) show ?thesis
        by auto
    qed
  qed
qed

lemma opener_token:
  assumes "string state = None" "q = dquote \<or> q = backtick"
    and "rest stream = replicate k backslash @ q # content"
  shows "token stream state =
     (let info = \<lparr>quote = q, slashes = k, raw = (q = backtick),
                   close = q # replicate k backslash,
                   escape = (if q = backtick then None
                             else Some (replicate (max 1 k) backslash))\<rparr>;
          r = readString_loop info (advance (k + 1) stream)
                ((lineStart stream state)\<lparr>string := Some info, exprStart := False,
                   macroEligible := False, afterDot := False, inSwap := False\<rparr>)
      in Inr (Some (fst r), snd r))"
proof -
  obtain c cs where r: "rest stream = c # cs" and c: "c = backslash \<or> c = q"
    using assms(3) by (cases k) auto
  with assms(2) have f: "\<not> isSpace c" "\<not> isDigit c" "c \<noteq> CHR ''-''" "c \<noteq> CHR ''.''"
    by (auto simp: isSpace_def isDigit_def)
  have n: "readNumber stream s = None" for s
    using readNumber_other[OF r f(2-4)] .
  have m: "match_opener (rest stream) = Some (k, q)"
    unfolding assms(3) using assms(2) by (rule match_opener_replicate)
  show ?thesis
    using assms(1) n m
    by (simp add: token_def eatSpace_no_space[OF r f(1)] startString_def Let_def readString_Some
        split: prod.split)
qed

lemma string_close_first:
  assumes "string state = None" and "q = dquote \<or> q = backtick"
    and "rest stream = replicate k backslash @ q # pre @ (q # replicate k backslash) @ post"
    and "\<forall>i<length pre. \<not> prefix (q # replicate k backslash)
                              (drop i (pre @ (q # replicate k backslash) @ post))"
    and "q = backtick \<or> (\<forall>i<length pre. \<not> prefix (replicate (max 1 k) backslash) (drop i pre))"
  shows "token stream state =
     Inr (Some String, advance (k + 1 + length pre + (k + 1)) stream,
          (lineStart stream state)\<lparr>string := None, exprStart := False, macroEligible := False,
             afterDot := False, inSwap := False\<rparr>)"
proof -
  let ?cl = "q # replicate k backslash"
  let ?info = "\<lparr>quote = q, slashes = k, raw = (q = backtick), close = ?cl,
                 escape = (if q = backtick then None else Some (replicate (max 1 k) backslash))\<rparr>"
  let ?s1 = "(lineStart stream state)\<lparr>string := Some ?info, exprStart := False,
               macroEligible := False, afterDot := False, inSwap := False\<rparr>"
  let ?st1 = "advance (k + 1) stream"
  have r1: "rest ?st1 = pre @ close ?info @ post"
    using assms(3) by (simp add: rest_advance)
  have a3: "\<forall>i<length pre. \<not> prefix (close ?info) (drop i (rest ?st1))"
    using assms(4) unfolding r1 by simp
  have a4: "raw ?info \<or> escape ?info = None
      \<or> (\<forall>i<length pre. \<not> prefix (the (escape ?info)) (drop i (rest ?st1)))"
  proof (cases "q = backtick")
    case True
    then show ?thesis by simp
  next
    case False
    with assms(2) have q: "q \<noteq> backslash"
      by auto
    have "\<not> prefix (replicate (max 1 k) backslash) (drop i (rest ?st1))" if "i < length pre" for i
    proof
      assume "prefix (replicate (max 1 k) backslash) (drop i (rest ?st1))"
      with that have "prefix (replicate (max 1 k) backslash)
          (drop i pre @ q # replicate k backslash @ post)"
        unfolding r1 by simp
      from prefix_replicate_before[OF this q] assms(5) False that show False
        by blast
    qed
    with False show ?thesis
      by simp
  qed
  have "readString_loop ?info ?st1 ?s1 =
      (String, advance (length pre + length (close ?info)) ?st1,
       ?s1\<lparr>string := None, exprStart := False, macroEligible := False\<rparr>)"
    using r1 a3 a4 by (intro readString_loop_first_close) simp_all
  then have "readString_loop ?info ?st1 ?s1 =
      (String, advance (k + 1 + length pre + (k + 1)) stream,
       (lineStart stream state)\<lparr>string := None, exprStart := False, macroEligible := False,
             afterDot := False, inSwap := False\<rparr>)"
    by (simp add: advance_advance add.assoc)
  with opener_token[OF assms(1,2), of stream k "pre @ ?cl @ post"] assms(3) show ?thesis
    by (simp add: Let_def)
qed

text \<open>When the loop closes the string, the text it has just passed is the close sequence.\<close>
lemma readString_loop_closed:
  assumes "readString_loop info stream state = (sty, stream', state')"
    and "string state \<noteq> None" "string state' = None" "pos stream \<le> length (line stream)"
  shows "\<exists>n. pos stream' = pos stream + n + length (close info)
     \<and> take (length (close info)) (drop n (rest stream)) = close info"
  using assms
proof (induction info stream state rule: readString_loop.induct)
  case (1 info stream state)
  show ?case
  proof (cases "eol stream")
    case True
    with "1.prems" show ?thesis
      by (simp add: readString_loop_eol)
  next
    case False
    show ?thesis
    proof (cases "match_str (close info) stream")
      case (Some x)
      with "1.prems"(1) False have "stream' = x"
        by (simp add: readString_loop_close)
      with match_str_length[OF Some] match_str_prefix[OF Some] show ?thesis
        by (intro exI[of _ 0]) (auto simp: advance_def prefix_def)
    next
      case None
      let ?esc = "if \<not> raw info \<and> escape info \<noteq> None \<and> escape info \<noteq> Some []
                  then match_str (the (escape info)) stream else None"
      have later: "\<exists>n. pos stream' = pos stream + n + length (close info)
          \<and> take (length (close info)) (drop n (rest stream)) = close info"
        if r: "readString_loop info s2 state = (sty, stream', state')"
          and ih: "readString_loop info s2 state = (sty, stream', state') \<Longrightarrow>
            string state \<noteq> None \<Longrightarrow> string state' = None \<Longrightarrow> pos s2 \<le> length (line s2) \<Longrightarrow>
            \<exists>n. pos stream' = pos s2 + n + length (close info)
              \<and> take (length (close info)) (drop n (rest s2)) = close info"
          and s2: "line s2 = line stream" "pos stream \<le> pos s2" "pos s2 \<le> length (line stream)"
        for s2
      proof -
        from ih[OF r "1.prems"(2,3)] s2 obtain n where n: "pos stream' = pos s2 + n + length (close info)"
          "take (length (close info)) (drop n (rest s2)) = close info"
          by auto
        have "rest s2 = drop (pos s2 - pos stream) (rest stream)"
          using s2(1,2) by (rule rest_later)
        with n s2(2) show ?thesis
          by (intro exI[of _ "pos s2 - pos stream + n"]) (simp add: add.commute)
      qed
      show ?thesis
      proof (cases ?esc)
        case N2: None
        from "1.prems"(1) False None N2
        have r: "readString_loop info (next_char stream) state = (sty, stream', state')"
          by (subst (asm) readString_loop.simps) simp
        from next_char_within[of stream] "1.prems"(4)
        have "line (next_char stream) = line stream" "pos stream \<le> pos (next_char stream)"
          "pos (next_char stream) \<le> length (line stream)"
          by auto
        from later[OF r "1.IH"(1)[OF False None N2] this] show ?thesis .
      next
        case (Some x2)
        let ?s2 = "if \<not> eol x2 then next_char x2 else x2"
        from "1.prems"(1) False None Some
        have r: "readString_loop info ?s2 state = (sty, stream', state')"
          by (subst (asm) readString_loop.simps) simp
        from Some have m: "match_str (the (escape info)) stream = Some x2"
          by (simp split: if_splits)
        from match_str_length[OF m] have "line x2 = line stream \<and> pos stream \<le> pos x2
            \<and> pos x2 \<le> length (line stream)"
          using "1.prems"(4) advance_within[of "length (the (escape info))" stream] by simp
        with next_char_within[of x2]
        have "line ?s2 = line stream" "pos stream \<le> pos ?s2" "pos ?s2 \<le> length (line stream)"
          by auto
        from later[OF r "1.IH"(2)[OF False None Some] this] show ?thesis .
      qed
    qed
  qed
qed

lemma startString_opened:
  assumes "startString stream state = Some (info, stream', state')"
  shows "\<exists>q k. info = opened q k \<and> (q = dquote \<or> q = backtick)"
proof -
  from assms obtain n q where m: "match_opener (rest stream) = Some (n, q)"
    and i: "info = opened q n"
    by (auto simp: startString_def Let_def opened_def split: option.splits)
  from m have "q = dquote \<or> q = backtick"
    by (cases "dropWhile (\<lambda>c. c = backslash) (rest stream)")
      (simp_all add: match_opener_def split: if_splits)
  with i show ?thesis
    by blast
qed

lemma match_str_None_iff: "match_str pat stream = None \<longleftrightarrow> \<not> prefix pat (rest stream)"
  using match_str_prefix[of pat stream] prefix_match_str[of pat stream]
  by (cases "match_str pat stream") auto

lemma opened_escape_test:
  "(if \<not> raw (opened q k) \<and> escape (opened q k) \<noteq> None \<and> escape (opened q k) \<noteq> Some []
    then match_str (the (escape (opened q k))) stream else None)
   = (if q \<noteq> backtick then match_str (replicate (max 1 k) backslash) stream else None)"
  by (cases k) (auto simp: opened_def)

lemma opened_close [simp]: "close (opened q k) = q # replicate k backslash"
  by (simp add: opened_def)

text \<open>One round of the loop over a piece of the scanned text.\<close>
lemma readString_loop_piece:
  assumes "rest stream = p @ after" "\<not> prefix (q # replicate k backslash) (rest stream)"
    and "length p = (if q \<noteq> backtick \<and> prefix (replicate (max 1 k) backslash) (rest stream)
                     then max 1 k + 1 else 1)"
  shows "readString_loop (opened q k) stream state
     = readString_loop (opened q k) (advance (length p) stream) state"
proof -
  from assms(3) have pl: "0 < length p"
    by (simp split: if_splits)
  with assms(1) have ne: "\<not> eol stream"
    by (cases p) (auto simp: eol_def dest: rest_Cons_pos)
  have c: "match_str (close (opened q k)) stream = None"
    using assms(2) by (simp add: match_str_None_iff)
  show ?thesis
  proof (cases "q \<noteq> backtick \<and> prefix (replicate (max 1 k) backslash) (rest stream)")
    case True
    let ?e = "replicate (max 1 k) backslash"
    let ?x2 = "advance (length ?e) stream"
    from True have m: "match_str ?e stream = Some ?x2"
      by (simp add: prefix_match_str)
    from True assms(3) have lp: "length p = length ?e + 1"
      by simp
    have "length (rest stream) = length p + length after"
      using assms(1) by simp
    then have "length ?e < length (rest stream)"
      unfolding lp by arith
    then have px: "pos ?x2 < length (line ?x2)"
      unfolding length_rest by (simp add: advance_def) arith
    then have n: "\<not> eol ?x2" "next_char ?x2 = advance (length p) stream"
      unfolding lp by (simp_all add: eol_def next_char_def advance_def)
    have "(if \<not> raw (opened q k) \<and> escape (opened q k) \<noteq> None \<and> escape (opened q k) \<noteq> Some []
           then match_str (the (escape (opened q k))) stream else None) = Some ?x2"
      unfolding opened_escape_test using True m by simp
    with ne c n show ?thesis
      by (subst readString_loop.simps) simp
  next
    case False
    with assms(3) have lp: "length p = 1"
      by auto
    from ne have n: "next_char stream = advance (length p) stream"
      by (simp add: next_char_def eol_def lp)
    have "(if \<not> raw (opened q k) \<and> escape (opened q k) \<noteq> None \<and> escape (opened q k) \<noteq> Some []
           then match_str (the (escape (opened q k))) stream else None) = None"
      unfolding opened_escape_test using False by (auto simp: match_str_None_iff)
    with ne c n show ?thesis
      by (subst readString_loop.simps) simp
  qed
qed

lemma readString_loop_scanned:
  assumes "rest stream = concat ps @ (q # replicate k backslash) @ post"
    and "scanned q k ps (rest stream)"
  shows "readString_loop (opened q k) stream state =
     (String, advance (length (concat ps) + (k + 1)) stream,
      state\<lparr>string := None, exprStart := False, macroEligible := False\<rparr>)"
  using assms
proof (induction ps arbitrary: stream)
  case Nil
  then have ne: "\<not> eol stream"
    by (auto simp: eol_def dest: rest_Cons_pos)
  from Nil have "prefix (close (opened q k)) (rest stream)"
    by simp
  from readString_loop_close[OF ne prefix_match_str[OF this]] show ?case
    by simp
next
  case (Cons p ps)
  have r: "rest stream = p @ (concat ps @ (q # replicate k backslash) @ post)"
    using Cons.prems(1) by simp
  note sc = Cons.prems(2)[unfolded scanned.simps]
  note s = sc[THEN conjunct2, THEN conjunct1] sc[THEN conjunct2, THEN conjunct2, THEN conjunct1]
    sc[THEN conjunct2, THEN conjunct2, THEN conjunct2]
  have r2: "rest (advance (length p) stream) = concat ps @ (q # replicate k backslash) @ post"
    using r by (simp add: rest_advance)
  from s(3) have s2: "scanned q k ps (rest (advance (length p) stream))"
    by (simp add: rest_advance)
  from Cons.IH[OF r2 s2] readString_loop_piece[OF r s(1,2)] show ?case
    by (simp add: advance_advance add.assoc)
qed

lemma readString_loop_closed_scanned:
  assumes "readString_loop info stream state = (sty, stream', state')" "info = opened q k"
    and "string state \<noteq> None" "string state' = None"
  shows "\<exists>ps post. rest stream = concat ps @ (q # replicate k backslash) @ post
     \<and> scanned q k ps (rest stream)
     \<and> pos stream' = pos stream + length (concat ps) + (k + 1)"
  using assms
proof (induction info stream state rule: readString_loop.induct)
  case (1 info stream state)
  let ?cl = "q # replicate k backslash"
  let ?e = "replicate (max 1 k) backslash"
  note i = "1.prems"(2)
  have cl: "close info = ?cl"
    unfolding i by simp
  show ?case
  proof (cases "eol stream")
    case True
    with "1.prems" show ?thesis
      by (simp add: readString_loop_eol)
  next
    case False
    show ?thesis
    proof (cases "match_str (close info) stream")
      case (Some x)
      with "1.prems"(1) False have x: "stream' = x"
        by (simp add: readString_loop_close)
      from match_str_prefix[OF Some] obtain post where "rest stream = ?cl @ post"
        unfolding cl by (auto simp: prefix_def)
      with match_str_length[OF Some] x cl show ?thesis
        by (intro exI[of _ "[]"] exI[of _ post]) (simp add: advance_def)
    next
      case None
      then have nc: "\<not> prefix ?cl (rest stream)"
        unfolding cl by (simp add: match_str_None_iff)
      let ?esc = "if \<not> raw info \<and> escape info \<noteq> None \<and> escape info \<noteq> Some []
                  then match_str (the (escape info)) stream else None"
      have esc: "?esc = (if q \<noteq> backtick then match_str ?e stream else None)"
        unfolding i by (rule opened_escape_test)
      have later: "\<exists>ps post. rest stream = concat ps @ ?cl @ post \<and> scanned q k ps (rest stream)
          \<and> pos stream' = pos stream + length (concat ps) + (k + 1)"
        if a: "\<exists>ps post. rest (advance n stream) = concat ps @ ?cl @ post
              \<and> scanned q k ps (rest (advance n stream))
              \<and> pos stream' = pos (advance n stream) + length (concat ps) + (k + 1)"
          and n: "n \<le> length (rest stream)"
            "n = (if q \<noteq> backtick \<and> prefix ?e (rest stream) then max 1 k + 1 else 1)"
        for n
      proof -
        from a obtain ps post
          where a: "rest (advance n stream) = concat ps @ ?cl @ post"
            "scanned q k ps (rest (advance n stream))"
            "pos stream' = pos (advance n stream) + length (concat ps) + (k + 1)"
          by blast
        let ?p = "take n (rest stream)"
        have lp: "length ?p = n"
          using n(1) by simp
        have "rest stream = ?p @ drop n (rest stream)"
          by simp
        with a(1) have r0: "rest stream = concat (?p # ps) @ ?cl @ post"
          by (simp add: rest_advance)
        have d: "drop (length ?p) (rest stream) = rest (advance n stream)"
          unfolding lp by (simp add: rest_advance)
        have "length ?p
            = (if q \<noteq> backtick \<and> prefix ?e (rest stream) then max 1 k + 1 else 1)"
          unfolding lp by (rule n(2))
        with a(2) nc have sc: "scanned q k (?p # ps) (rest stream)"
          unfolding scanned.simps d by (intro conjI take_is_prefix)
        have "pos stream' = pos stream + length (concat (?p # ps)) + (k + 1)"
          using a(3) lp by (simp add: advance_def)
        with r0 sc show ?thesis
          by (intro exI[of _ "?p # ps"] exI[of _ post] conjI)
      qed
      show ?thesis
      proof (cases ?esc)
        case N2: None
        from False have nx: "next_char stream = advance 1 stream"
          by (simp add: next_char_def eol_def)
        from "1.prems"(1) False None N2
        have r: "readString_loop info (next_char stream) state = (sty, stream', state')"
          by (subst (asm) readString_loop.simps) simp
        note ih = "1.IH"(1)[OF False None N2 r i "1.prems"(3,4), unfolded nx]
        from N2 have ne: "\<not> (q \<noteq> backtick \<and> prefix ?e (rest stream))"
          unfolding esc by (auto simp: match_str_None_iff split: if_splits)
        from False have n1: "1 \<le> length (rest stream)"
          by (simp add: eol_def length_rest)
        have n2: "1 = (if q \<noteq> backtick \<and> prefix ?e (rest stream) then max 1 k + 1 else 1)"
          using ne by auto
        show ?thesis
          by (rule later[OF ih n1 n2])
      next
        case (Some x2)
        from Some have qe: "q \<noteq> backtick" and m: "match_str ?e stream = Some x2"
          unfolding esc by (auto split: if_splits)
        from match_str_length[OF m] have x2: "x2 = advance (length ?e) stream"
          by simp
        let ?s2 = "if \<not> eol x2 then next_char x2 else x2"
        from "1.prems"(1) False None Some
        have r: "readString_loop info ?s2 state = (sty, stream', state')"
          by (subst (asm) readString_loop.simps) simp
        have ne2: "\<not> eol x2"
        proof
          assume "eol x2"
          with r have "state' = state"
            by (simp add: readString_loop_eol)
          with "1.prems"(3,4) show False
            by simp
        qed
        then have "pos stream + max 1 k < length (line stream)"
          unfolding x2 by (simp add: eol_def advance_def)
        then have n1: "max 1 k + 1 \<le> length (rest stream)"
          unfolding length_rest by arith
        from ne2 have s2: "?s2 = advance (max 1 k + 1) stream"
          unfolding x2 by (simp add: next_char_def eol_def advance_def)
        note ih = "1.IH"(2)[OF False None Some r i "1.prems"(3,4), unfolded s2]
        have n2: "max 1 k + 1
            = (if q \<noteq> backtick \<and> prefix ?e (rest stream) then max 1 k + 1 else 1)"
          using qe match_str_prefix[OF m] by simp
        show ?thesis
          by (rule later[OF ih n1 n2])
      qed
    qed
  qed
qed

lemma token_string_opened:
  assumes "token stream state = Inr (sty, stream', state')" "string state' = Some info"
  shows "string state = Some info \<or> (\<exists>q k. info = opened q k \<and> (q = dquote \<or> q = backtick))"
  using assms(1)
proof (cases rule: token_cases)
  case (in_string i)
  from readString_loop_result[OF in_string(2)] assms(2) show ?thesis
    by auto
next
  case space
  with assms(2) show ?thesis by simp
next
  case number
  from readNumber_state[OF number(3)] assms(2) show ?thesis
    by (simp add: number_flags_def)
next
  case (open_string i stream1 state1)
  from readString_loop_result[OF open_string(4)] assms(2) have "string state1 = Some info"
    by auto
  with startString_state[OF open_string(3)] startString_opened[OF open_string(3)] show ?thesis
    by simp
next
  case at_end
  with assms(2) show ?thesis by simp
next
  case (char c)
  from dispatch_string[OF char(6)] assms(2) show ?thesis
    by simp
qed

lemma reachable_opened:
  "reachable state \<Longrightarrow> string state = Some info \<Longrightarrow>
   \<exists>q k. info = opened q k \<and> (q = dquote \<or> q = backtick)"
proof (induction arbitrary: info rule: reachable.induct)
  case start
  then show ?case by (simp add: startState_def)
next
  case (blank state)
  then show ?case by (simp add: blankLine_def)
next
  case (tok state stream sty stream' state')
  from token_string_opened[OF tok.hyps(2) tok.prems] tok.IH show ?case
    by blast
qed

lemma opener_token_opened:
  assumes "string state = None" "q = dquote \<or> q = backtick"
    and "rest stream = replicate k backslash @ q # content"
  shows "token stream state =
     Inr (Some (fst (readString_loop (opened q k) (advance (k + 1) stream)
                  ((lineStart stream state)\<lparr>string := Some (opened q k), exprStart := False,
                     macroEligible := False, afterDot := False, inSwap := False\<rparr>))),
          snd (readString_loop (opened q k) (advance (k + 1) stream)
                  ((lineStart stream state)\<lparr>string := Some (opened q k), exprStart := False,
                     macroEligible := False, afterDot := False, inSwap := False\<rparr>)))"
  using opener_token[OF assms] by (simp add: Let_def opened_def)

text \<open>
  C3, as the code has it. A string opened by \<open>k\<close> backslashes and a quote \<open>q\<close> ends at
  the first occurrence of \<open>q\<close> followed by \<open>k\<close> backslashes that begins where a piece of
  the scanned text would begin: in a raw string every character is a piece, and in any
  other string an escape run (\<open>max 1 k\<close> backslashes) and the character after it are one
  piece, so a close sequence beginning at that character ends nothing. (1) Every string
  context of a reachable state is \<open>opened q k\<close> for a double quote or a backtick. (2) On
  the opening line and (3) on a later line, when the text up to the close sequence
  splits into such pieces, the token ends right after that close sequence and the
  string context is \<open>None\<close>. (4), (5) Conversely, whenever the call ends with the context
  \<open>None\<close>, the text it passed splits into such pieces followed by the close sequence; in
  particular a quote followed by fewer than \<open>k\<close> backslashes closes nothing.
\<close>
theorem C3_string_close:
  "(reachable state \<and> string state = Some info
    \<longrightarrow> (\<exists>q k. info = opened q k \<and> (q = dquote \<or> q = backtick)))
   \<and> (string state = None \<and> (q = dquote \<or> q = backtick)
      \<and> rest stream = replicate k backslash @ q # concat ps @ (q # replicate k backslash) @ post
      \<and> scanned q k ps (concat ps @ (q # replicate k backslash) @ post)
    \<longrightarrow> token stream state =
          Inr (Some String, advance (k + 1 + length (concat ps) + (k + 1)) stream,
               (lineStart stream state)\<lparr>string := None, exprStart := False,
                  macroEligible := False, afterDot := False, inSwap := False\<rparr>))
   \<and> (string state = Some (opened q k)
      \<and> rest stream = concat ps @ (q # replicate k backslash) @ post
      \<and> scanned q k ps (rest stream)
    \<longrightarrow> token stream state =
          Inr (Some String, advance (length (concat ps) + (k + 1)) stream,
               state\<lparr>string := None, exprStart := False, macroEligible := False\<rparr>))
   \<and> (string state = None \<and> (q = dquote \<or> q = backtick)
      \<and> rest stream = replicate k backslash @ q # content
      \<and> token stream state = Inr (sty, stream', state') \<and> string state' = None
    \<longrightarrow> (\<exists>pieces rest_of_line.
           content = concat pieces @ (q # replicate k backslash) @ rest_of_line
           \<and> scanned q k pieces content
           \<and> pos stream' = pos stream + (k + 1) + length (concat pieces) + (k + 1)))
   \<and> (string state = Some (opened q k)
      \<and> token stream state = Inr (sty, stream', state') \<and> string state' = None
    \<longrightarrow> (\<exists>pieces rest_of_line.
           rest stream = concat pieces @ (q # replicate k backslash) @ rest_of_line
           \<and> scanned q k pieces (rest stream)
           \<and> pos stream' = pos stream + length (concat pieces) + (k + 1)))"
proof -
  have part0: "\<exists>q k. info = opened q k \<and> (q = dquote \<or> q = backtick)"
    if "reachable state \<and> string state = Some info"
    using that reachable_opened by blast
  have part1: "token stream state =
          Inr (Some String, advance (k + 1 + length (concat ps) + (k + 1)) stream,
               (lineStart stream state)\<lparr>string := None, exprStart := False,
                  macroEligible := False, afterDot := False, inSwap := False\<rparr>)"
    if a: "string state = None \<and> (q = dquote \<or> q = backtick)
      \<and> rest stream = replicate k backslash @ q # concat ps @ (q # replicate k backslash) @ post
      \<and> scanned q k ps (concat ps @ (q # replicate k backslash) @ post)"
  proof -
    let ?s1 = "(lineStart stream state)\<lparr>string := Some (opened q k), exprStart := False,
                 macroEligible := False, afterDot := False, inSwap := False\<rparr>"
    let ?st1 = "advance (k + 1) stream"
    from a have r1: "rest ?st1 = concat ps @ (q # replicate k backslash) @ post"
      by (simp add: rest_advance)
    from a have "scanned q k ps (rest ?st1)"
      unfolding r1 by simp
    from readString_loop_scanned[OF r1 this, of ?s1]
    have "readString_loop (opened q k) ?st1 ?s1 =
        (String, advance (k + 1 + length (concat ps) + (k + 1)) stream,
         (lineStart stream state)\<lparr>string := None, exprStart := False,
            macroEligible := False, afterDot := False, inSwap := False\<rparr>)"
      by (simp add: advance_advance add.assoc)
    with a opener_token_opened[of state q stream k "concat ps @ (q # replicate k backslash) @ post"]
    show ?thesis
      by simp
  qed
  have part2: "token stream state =
          Inr (Some String, advance (length (concat ps) + (k + 1)) stream,
               state\<lparr>string := None, exprStart := False, macroEligible := False\<rparr>)"
    if a: "string state = Some (opened q k)
      \<and> rest stream = concat ps @ (q # replicate k backslash) @ post
      \<and> scanned q k ps (rest stream)"
  proof -
    from a have r: "rest stream = concat ps @ (q # replicate k backslash) @ post"
      and sc: "scanned q k ps (rest stream)"
      by blast+
    have "readString_loop (opened q k) stream state =
        (String, advance (length (concat ps) + (k + 1)) stream,
         state\<lparr>string := None, exprStart := False, macroEligible := False\<rparr>)"
      using r sc by (rule readString_loop_scanned)
    with a show ?thesis
      by (simp add: token_in_string)
  qed
  have part3: "\<exists>pieces rest_of_line.
           content = concat pieces @ (q # replicate k backslash) @ rest_of_line
           \<and> scanned q k pieces content
           \<and> pos stream' = pos stream + (k + 1) + length (concat pieces) + (k + 1)"
    if a: "string state = None \<and> (q = dquote \<or> q = backtick)
      \<and> rest stream = replicate k backslash @ q # content
      \<and> token stream state = Inr (sty, stream', state') \<and> string state' = None"
  proof -
    let ?s1 = "(lineStart stream state)\<lparr>string := Some (opened q k), exprStart := False,
                 macroEligible := False, afterDot := False, inSwap := False\<rparr>"
    let ?st1 = "advance (k + 1) stream"
    from a opener_token_opened[of state q stream k content]
    have "Inr (sty, stream', state')
        = Inr (Some (fst (readString_loop (opened q k) ?st1 ?s1)),
               snd (readString_loop (opened q k) ?st1 ?s1))"
      by simp
    then have l: "readString_loop (opened q k) ?st1 ?s1
        = (fst (readString_loop (opened q k) ?st1 ?s1), stream', state')"
      by (cases "readString_loop (opened q k) ?st1 ?s1") auto
    have r1: "rest ?st1 = content"
      using a by (simp add: rest_advance)
    from a readString_loop_closed_scanned[OF l refl] show ?thesis
      unfolding r1 by (simp add: advance_def add.assoc)
  qed
  have part4: "\<exists>pieces rest_of_line.
           rest stream = concat pieces @ (q # replicate k backslash) @ rest_of_line
           \<and> scanned q k pieces (rest stream)
           \<and> pos stream' = pos stream + length (concat pieces) + (k + 1)"
    if a: "string state = Some (opened q k)
      \<and> token stream state = Inr (sty, stream', state') \<and> string state' = None"
  proof -
    from a token_in_string[of state "opened q k" stream]
    have l: "readString_loop (opened q k) stream state
        = (fst (readString_loop (opened q k) stream state), stream', state')"
      by (cases "readString_loop (opened q k) stream state") auto
    from a readString_loop_closed_scanned[OF l refl] show ?thesis
      by simp
  qed
  from part0 part1 part2 part3 part4 show ?thesis
    by blast
qed

theorem C3_string_close_witness:
  "scanned dquote 0 [''a'', [backslash, CHR ''n''], ''b''] (concat [''a'', [backslash, CHR ''n''], ''b''] @ (dquote # replicate 0 backslash) @ '' c'')
   \<and> token \<lparr>line =
         [dquote, CHR ''a'', backslash, CHR ''n'', CHR ''b'', dquote, CHR '' '', CHR ''c''], pos = 0\<rparr> startState =
       Inr (Some String, \<lparr>line =
         [dquote, CHR ''a'', backslash, CHR ''n'', CHR ''b'', dquote, CHR '' '', CHR ''c''], pos = 6\<rparr>,
            startState\<lparr>exprStart := False, macroEligible := False\<rparr>)
   \<and> scanned dquote 2 [''a'', [dquote], [backslash], ''b''] (concat [''a'', [dquote], [backslash], ''b''] @ (dquote # replicate 2 backslash) @ '' t'')
   \<and> token \<lparr>line =
         [backslash, backslash, dquote, CHR ''a'', dquote, backslash,
          CHR ''b'', dquote, backslash, backslash, CHR '' '', CHR ''t''], pos = 0\<rparr> startState =
       Inr (Some String, \<lparr>line =
         [backslash, backslash, dquote, CHR ''a'', dquote, backslash,
          CHR ''b'', dquote, backslash, backslash, CHR '' '', CHR ''t''], pos = 10\<rparr>,
            startState\<lparr>exprStart := False, macroEligible := False\<rparr>)
   \<and> scanned dquote 0 [''x'', [backslash, dquote], ''y''] (rest \<lparr>line =
         [CHR ''x'', backslash, dquote, CHR ''y'', dquote, CHR '' '', CHR ''z''], pos = 0\<rparr>)
   \<and> token \<lparr>line =
         [CHR ''x'', backslash, dquote, CHR ''y'', dquote, CHR '' '', CHR ''z''], pos = 0\<rparr>
        (startState\<lparr>string := Some (opened dquote 0), exprStart := False,
          macroEligible := False, macroLocked := True\<rparr>) =
       Inr (Some String, \<lparr>line =
         [CHR ''x'', backslash, dquote, CHR ''y'', dquote, CHR '' '', CHR ''z''], pos = 5\<rparr>,
        startState\<lparr>string := None, exprStart := False,
          macroEligible := False, macroLocked := True\<rparr>)"
proof -
  have h1: "string startState = None"
    by (simp add: startState_def)
  have q: "dquote = dquote \<or> dquote = backtick"
    by simp
  have l: "lineStart \<lparr>line = ln, pos = 0\<rparr> startState = startState" for ln
    by (simp add: lineStart_def sol_def startState_def)
  have u: "startState\<lparr>string := None, exprStart := False, macroEligible := False,
        afterDot := False, inSwap := False\<rparr>
      = startState\<lparr>exprStart := False, macroEligible := False\<rparr>"
    by (simp add: startState_def)
  have r1: "rest \<lparr>line =
         [dquote, CHR ''a'', backslash, CHR ''n'', CHR ''b'', dquote, CHR '' '', CHR ''c''], pos = 0\<rparr>
      = replicate 0 backslash @ dquote # concat [''a'', [backslash, CHR ''n''], ''b''] @ (dquote # replicate 0 backslash) @ '' c''"
    by code_simp
  have s1: "scanned dquote 0 [''a'', [backslash, CHR ''n''], ''b''] (concat [''a'', [backslash, CHR ''n''], ''b''] @ (dquote # replicate 0 backslash) @ '' c'')"
    by code_simp
  have a1: "advance (0 + 1 + length (concat [''a'', [backslash, CHR ''n''], ''b'']) + (0 + 1)) \<lparr>line =
         [dquote, CHR ''a'', backslash, CHR ''n'', CHR ''b'', dquote, CHR '' '', CHR ''c''], pos = 0\<rparr>
      = \<lparr>line =
         [dquote, CHR ''a'', backslash, CHR ''n'', CHR ''b'', dquote, CHR '' '', CHR ''c''], pos = 6\<rparr>"
    by (simp add: advance_def)
  have t1: "token \<lparr>line =
         [dquote, CHR ''a'', backslash, CHR ''n'', CHR ''b'', dquote, CHR '' '', CHR ''c''], pos = 0\<rparr> startState =
       Inr (Some String, \<lparr>line =
         [dquote, CHR ''a'', backslash, CHR ''n'', CHR ''b'', dquote, CHR '' '', CHR ''c''], pos = 6\<rparr>,
            startState\<lparr>exprStart := False, macroEligible := False\<rparr>)"
    using C3_string_close[where state = startState and q = dquote and k = 0 and ps = "[''a'', [backslash, CHR ''n''], ''b'']"
        and post = "'' c''" and stream = "\<lparr>line =
         [dquote, CHR ''a'', backslash, CHR ''n'', CHR ''b'', dquote, CHR '' '', CHR ''c''], pos = 0\<rparr>",
        THEN conjunct2, THEN conjunct1, THEN mp, OF conjI[OF h1 conjI[OF q conjI[OF r1 s1]]]]
    unfolding a1 l u .
  have r3: "rest \<lparr>line =
         [backslash, backslash, dquote, CHR ''a'', dquote, backslash,
          CHR ''b'', dquote, backslash, backslash, CHR '' '', CHR ''t''], pos = 0\<rparr>
      = replicate 2 backslash @ dquote # concat [''a'', [dquote], [backslash], ''b''] @ (dquote # replicate 2 backslash) @ '' t''"
    by code_simp
  have s3: "scanned dquote 2 [''a'', [dquote], [backslash], ''b''] (concat [''a'', [dquote], [backslash], ''b''] @ (dquote # replicate 2 backslash) @ '' t'')"
    by code_simp
  have a3: "advance (2 + 1 + length (concat [''a'', [dquote], [backslash], ''b'']) + (2 + 1)) \<lparr>line =
         [backslash, backslash, dquote, CHR ''a'', dquote, backslash,
          CHR ''b'', dquote, backslash, backslash, CHR '' '', CHR ''t''], pos = 0\<rparr>
      = \<lparr>line =
         [backslash, backslash, dquote, CHR ''a'', dquote, backslash,
          CHR ''b'', dquote, backslash, backslash, CHR '' '', CHR ''t''], pos = 10\<rparr>"
    by (simp add: advance_def)
  have t3: "token \<lparr>line =
         [backslash, backslash, dquote, CHR ''a'', dquote, backslash,
          CHR ''b'', dquote, backslash, backslash, CHR '' '', CHR ''t''], pos = 0\<rparr> startState =
       Inr (Some String, \<lparr>line =
         [backslash, backslash, dquote, CHR ''a'', dquote, backslash,
          CHR ''b'', dquote, backslash, backslash, CHR '' '', CHR ''t''], pos = 10\<rparr>,
            startState\<lparr>exprStart := False, macroEligible := False\<rparr>)"
    using C3_string_close[where state = startState and q = dquote and k = 2 and ps = "[''a'', [dquote], [backslash], ''b'']"
        and post = "'' t''" and stream = "\<lparr>line =
         [backslash, backslash, dquote, CHR ''a'', dquote, backslash,
          CHR ''b'', dquote, backslash, backslash, CHR '' '', CHR ''t''], pos = 0\<rparr>",
        THEN conjunct2, THEN conjunct1, THEN mp, OF conjI[OF h1 conjI[OF q conjI[OF r3 s3]]]]
    unfolding a3 l u .
  let ?s2 = "startState\<lparr>string := Some (opened dquote 0), exprStart := False,
          macroEligible := False, macroLocked := True\<rparr>"
  have h2: "string ?s2 = Some (opened dquote 0)"
    by simp
  have r2: "rest \<lparr>line =
         [CHR ''x'', backslash, dquote, CHR ''y'', dquote, CHR '' '', CHR ''z''], pos = 0\<rparr>
      = concat [''x'', [backslash, dquote], ''y''] @ (dquote # replicate 0 backslash) @ '' z''"
    by code_simp
  have s2: "scanned dquote 0 [''x'', [backslash, dquote], ''y''] (rest \<lparr>line =
         [CHR ''x'', backslash, dquote, CHR ''y'', dquote, CHR '' '', CHR ''z''], pos = 0\<rparr>)"
    by code_simp
  have a2: "advance (length (concat [''x'', [backslash, dquote], ''y'']) + (0 + 1)) \<lparr>line =
         [CHR ''x'', backslash, dquote, CHR ''y'', dquote, CHR '' '', CHR ''z''], pos = 0\<rparr>
      = \<lparr>line =
         [CHR ''x'', backslash, dquote, CHR ''y'', dquote, CHR '' '', CHR ''z''], pos = 5\<rparr>"
    by (simp add: advance_def)
  have u2: "?s2\<lparr>string := None, exprStart := False, macroEligible := False\<rparr>
      = startState\<lparr>string := None, exprStart := False,
          macroEligible := False, macroLocked := True\<rparr>"
    by simp
  have t2: "token \<lparr>line =
         [CHR ''x'', backslash, dquote, CHR ''y'', dquote, CHR '' '', CHR ''z''], pos = 0\<rparr> ?s2 =
       Inr (Some String, \<lparr>line =
         [CHR ''x'', backslash, dquote, CHR ''y'', dquote, CHR '' '', CHR ''z''], pos = 5\<rparr>,
        startState\<lparr>string := None, exprStart := False,
          macroEligible := False, macroLocked := True\<rparr>)"
    using C3_string_close[where state = ?s2 and q = dquote and k = 0 and ps = "[''x'', [backslash, dquote], ''y'']"
        and post = "'' z''" and stream = "\<lparr>line =
         [CHR ''x'', backslash, dquote, CHR ''y'', dquote, CHR '' '', CHR ''z''], pos = 0\<rparr>",
        THEN conjunct2, THEN conjunct2, THEN conjunct1, THEN mp, OF conjI[OF h2 conjI[OF r2 s2]]]
    unfolding a2 u2 .
  from s1 t1 s3 t3 s2 t2 show ?thesis
    by (intro conjI)
qed

text \<open>
  The claim C3 as stated fails on an escaped quote. In \<open>"a\"b" c\<close> the string is opened
  by no backslash and a double quote; the first double quote after the opener is the
  fourth character of the line, so the claim ends the token after four characters, and
  the lexer ends it after six.
\<close>
theorem C3_counterexample:
  "rest \<lparr>line = [dquote, CHR ''a'', backslash, dquote, CHR ''b'', dquote, CHR '' '', CHR ''c''], pos = 0\<rparr>
     = replicate 0 backslash @ dquote # [CHR ''a'', backslash] @ (dquote # replicate 0 backslash)
         @ [CHR ''b'', dquote, CHR '' '', CHR ''c'']
   \<and> \<not> prefix (dquote # replicate 0 backslash)
         (drop 0 ([CHR ''a'', backslash] @ (dquote # replicate 0 backslash) @ [CHR ''b'', dquote, CHR '' '', CHR ''c'']))
   \<and> \<not> prefix (dquote # replicate 0 backslash)
         (drop 1 ([CHR ''a'', backslash] @ (dquote # replicate 0 backslash) @ [CHR ''b'', dquote, CHR '' '', CHR ''c'']))
   \<and> token \<lparr>line = [dquote, CHR ''a'', backslash, dquote, CHR ''b'', dquote, CHR '' '', CHR ''c''], pos = 0\<rparr> startState
       = Inr (Some String, \<lparr>line = [dquote, CHR ''a'', backslash, dquote, CHR ''b'', dquote, CHR '' '', CHR ''c''], pos = 6\<rparr>,
              startState\<lparr>exprStart := False, macroEligible := False\<rparr>)
   \<and> token \<lparr>line = [dquote, CHR ''a'', backslash, dquote, CHR ''b'', dquote, CHR '' '', CHR ''c''], pos = 0\<rparr> startState
       \<noteq> Inr (Some String, \<lparr>line = [dquote, CHR ''a'', backslash, dquote, CHR ''b'', dquote, CHR '' '', CHR ''c''], pos = 4\<rparr>,
              startState\<lparr>exprStart := False, macroEligible := False\<rparr>)"
  by code_simp

subsection \<open>Brackets and the lock stack\<close>

lemma dispatch_delimiter:
  "c \<in> delimiters \<Longrightarrow> dispatch c stream state = bracket_token c stream state"
  by (auto simp: dispatch_def delimiters_def)

lemma dispatch_no_bracket:
  assumes "dispatch c stream state = (sty, stream', state')" "c \<notin> delimiters"
  shows "sty \<noteq> Some Bracket \<and> macroLockStack state' = macroLockStack state"
  using assms
  by (auto simp: dispatch_def Let_def split: if_splits option.splits
      dest: identifier_token_result)

lemma delimiter_facts:
  assumes "c \<in> delimiters"
  shows "\<not> isSpace c" "\<not> isDigit c" "c \<noteq> CHR ''-''" "c \<noteq> CHR ''.''" "c \<noteq> backslash"
    "c \<noteq> dquote" "c \<noteq> backtick"
  using assms by (auto simp: delimiters_def isSpace_def isDigit_def)

lemma token_bracket:
  assumes "string state = None" "peek stream = Some c" "c \<in> delimiters"
  shows "token stream state = Inr (bracket_token c stream (lineStart stream state))"
proof -
  from assms(2) obtain cs where r: "rest stream = c # cs"
    by (auto simp: peek_eq_Some)
  from token_dispatch[OF assms(1) r delimiter_facts[OF assms(3)]] dispatch_delimiter[OF assms(3)]
  show ?thesis
    by simp
qed

lemma token_stack:
  assumes "token stream state = Inr (sty, stream', state')"
  shows "(sty = Some Bracket \<longrightarrow>
            (\<exists>c. string state = None \<and> peek stream = Some c \<and> c \<in> delimiters
                 \<and> (sty, stream', state') = bracket_token c stream (lineStart stream state)))
     \<and> (sty \<noteq> Some Bracket \<longrightarrow> macroLockStack state' = macroLockStack state)"
  using assms
proof (cases rule: token_cases)
  case (in_string info)
  from readString_loop_result[OF in_string(2)] in_string(3) show ?thesis
    by auto
next
  case space
  then show ?thesis by simp
next
  case number
  from readNumber_state[OF number(3)] number(2) show ?thesis
    by (simp add: number_flags_def)
next
  case (open_string info stream1 state1)
  from readString_loop_result[OF open_string(4)] startString_state[OF open_string(3)]
    open_string(2)
  show ?thesis
    by auto
next
  case at_end
  then show ?thesis by simp
next
  case (char c)
  show ?thesis
  proof (cases "c \<in> delimiters")
    case True
    with char dispatch_delimiter[OF True, of stream "lineStart stream state"] show ?thesis
      by (auto simp: bracket_token_def Let_def)
  next
    case False
    from dispatch_no_bracket[OF char(6) False] show ?thesis
      by simp
  qed
qed

lemma current_next_char: "peek stream = Some c \<Longrightarrow> current stream (next_char stream) = [c]"
proof -
  assume "peek stream = Some c"
  then obtain cs where r: "rest stream = c # cs"
    by (auto simp: peek_eq_Some)
  then have "drop (pos stream) (line stream) = c # cs"
    by (simp add: rest_def)
  with next_char_Cons[OF r] show ?thesis
    by (simp add: current_def advance_def)
qed

lemma open_bracket_text:
  "[c] \<in> {''('', ''['', ''{''} \<longleftrightarrow> c = CHR ''('' \<or> c = CHR ''['' \<or> c = CHR ''{''"
  by auto

text \<open>What one step does to the emitted tokens and to the lock stack.\<close>
lemma step_stack:
  assumes "step c = Inr c'"
  shows "emitted c' = emitted c \<and> macroLockStack (lexer_state c') = macroLockStack (lexer_state c)
     \<or> (\<exists>t. emitted c' = emitted c @ [t]
          \<and> (bracket_delta t = 1
                \<and> macroLockStack (lexer_state c')
                    = macroLockStack (lexer_state c)
                      @ [macroLocked (lineStart (cur c) (lexer_state c))]
                \<and> \<not> macroLocked (lexer_state c')
              \<or> bracket_delta t = - 1
                \<and> macroLockStack (lexer_state c') = butlast (macroLockStack (lexer_state c))
                \<and> macroLocked (lexer_state c')
                    = (if macroLockStack (lexer_state c) = [] then False
                       else last (macroLockStack (lexer_state c)))
              \<or> bracket_delta t = 0
                \<and> macroLockStack (lexer_state c') = macroLockStack (lexer_state c)))"
proof (cases "eol (cur c)")
  case True
  with assms show ?thesis
    by (auto simp: step_def blankLine_def split: list.splits if_splits)
next
  case False
  with assms obtain sty stream' state' where t: "token (cur c) (lexer_state c) = Inr (sty, stream', state')"
    and c': "c' = c\<lparr>cur := stream', lexer_state := state',
                     emitted := emitted c @ [(current (cur c) stream', sty)]\<rparr>"
    by (auto simp: step_def split: sum.splits)
  let ?t = "(current (cur c) stream', sty)"
  have e: "emitted c' = emitted c @ [?t]" and s: "lexer_state c' = state'"
    using c' by simp_all
  show ?thesis
  proof (cases "sty = Some Bracket")
    case False
    with token_stack[OF t] have "bracket_delta ?t = 0"
      "macroLockStack state' = macroLockStack (lexer_state c)"
      by (simp_all add: bracket_delta_def)
    with e s show ?thesis
      by auto
  next
    case True
    with token_stack[OF t] obtain ch where ch: "peek (cur c) = Some ch" "ch \<in> delimiters"
      and b: "(sty, stream', state') = bracket_token ch (cur c) (lineStart (cur c) (lexer_state c))"
      by blast
    from b have st: "stream' = next_char (cur c)"
      by (simp add: bracket_token_def Let_def)
    have cur_text: "current (cur c) stream' = [ch]"
      unfolding st using ch(1) by (rule current_next_char)
    show ?thesis
    proof (cases "ch = CHR ''('' \<or> ch = CHR ''['' \<or> ch = CHR ''{''")
      case opn: True
      then have "bracket_delta ?t = 1"
        using True cur_text by (auto simp: bracket_delta_def)
      moreover from b opn have "macroLockStack state'
          = macroLockStack (lexer_state c) @ [macroLocked (lineStart (cur c) (lexer_state c))]"
        "\<not> macroLocked state'"
        by (auto simp: bracket_token_def Let_def)
      ultimately show ?thesis
        using e s by auto
    next
      case cls: False
      then have "bracket_delta ?t = - 1"
        using True cur_text by (auto simp: bracket_delta_def)
      moreover from b cls have "macroLockStack state' = butlast (macroLockStack (lexer_state c))"
        "macroLocked state' = (if macroLockStack (lexer_state c) = [] then False
                               else last (macroLockStack (lexer_state c)))"
        by (auto simp: bracket_token_def Let_def)
      ultimately show ?thesis
        using e s by auto
    qed
  qed
qed

lemma depth_append: "depth (xs @ ys) = depth xs + depth ys"
  by (simp add: depth_def)

lemma nested_from_append:
  "nested_from d (xs @ ys) \<longleftrightarrow> nested_from d xs \<and> nested_from (d + depth xs) ys"
  by (induction xs arbitrary: d) (auto simp: depth_def add.assoc)

text \<open>
  Over any number of steps whose tokens never close a bracket that they did not open,
  the stack keeps what it had and gains one entry per bracket still open.
\<close>
lemma run_stack:
  assumes "run n c = Inr c'"
  shows "\<exists>mid. emitted c' = emitted c @ mid
     \<and> (nested_from 0 mid \<longrightarrow>
          (\<exists>ext. macroLockStack (lexer_state c') = macroLockStack (lexer_state c) @ ext
                \<and> int (length ext) = depth mid))"
  using assms
proof (induction n arbitrary: c')
  case 0
  then show ?case
    by (simp add: depth_def)
next
  case (Suc n)
  from Suc.prems obtain c1 where r: "run n c = Inr c1" and s: "step c1 = Inr c'"
    by (auto split: sum.splits)
  from Suc.IH[OF r] obtain mid where m: "emitted c1 = emitted c @ mid"
    and i: "nested_from 0 mid \<Longrightarrow>
          \<exists>ext. macroLockStack (lexer_state c1) = macroLockStack (lexer_state c) @ ext
                \<and> int (length ext) = depth mid"
    by blast
  from step_stack[OF s] show ?case
  proof (elim disjE exE conjE)
    assume "emitted c' = emitted c1" "macroLockStack (lexer_state c') = macroLockStack (lexer_state c1)"
    with m i show ?thesis
      by auto
  next
    fix t
    assume e: "emitted c' = emitted c1 @ [t]" and d: "bracket_delta t = 1"
      and k: "macroLockStack (lexer_state c') = macroLockStack (lexer_state c1)
                @ [macroLocked (lineStart (cur c1) (lexer_state c1))]"
    have "\<exists>ext. macroLockStack (lexer_state c') = macroLockStack (lexer_state c) @ ext
                \<and> int (length ext) = depth (mid @ [t])"
      if "nested_from 0 (mid @ [t])"
    proof -
      from that have "nested_from 0 mid"
        by (simp add: nested_from_append)
      from i[OF this] obtain ext where "macroLockStack (lexer_state c1) = macroLockStack (lexer_state c) @ ext"
        "int (length ext) = depth mid"
        by blast
      with k d show ?thesis
        by (intro exI[of _ "ext @ [macroLocked (lineStart (cur c1) (lexer_state c1))]"])
          (simp add: depth_append depth_def)
    qed
    with e m show ?thesis
      by auto
  next
    fix t
    assume e: "emitted c' = emitted c1 @ [t]" and d: "bracket_delta t = - 1"
      and k: "macroLockStack (lexer_state c') = butlast (macroLockStack (lexer_state c1))"
    have "\<exists>ext. macroLockStack (lexer_state c') = macroLockStack (lexer_state c) @ ext
                \<and> int (length ext) = depth (mid @ [t])"
      if "nested_from 0 (mid @ [t])"
    proof -
      from that d have n: "nested_from 0 mid" "0 \<le> depth mid - 1"
        by (simp_all add: nested_from_append)
      from i[OF n(1)] obtain ext where x: "macroLockStack (lexer_state c1) = macroLockStack (lexer_state c) @ ext"
        "int (length ext) = depth mid"
        by blast
      with n(2) have ne: "ext \<noteq> []"
        by auto
      then have "int (length (butlast ext)) = int (length ext) - 1"
        by (cases ext rule: rev_cases) auto
      with k x d ne show ?thesis
        by (intro exI[of _ "butlast ext"]) (simp add: depth_append depth_def butlast_append)
    qed
    with e m show ?thesis
      by auto
  next
    fix t
    assume e: "emitted c' = emitted c1 @ [t]" and d: "bracket_delta t = 0"
      and k: "macroLockStack (lexer_state c') = macroLockStack (lexer_state c1)"
    have "\<exists>ext. macroLockStack (lexer_state c') = macroLockStack (lexer_state c) @ ext
                \<and> int (length ext) = depth (mid @ [t])"
      if "nested_from 0 (mid @ [t])"
    proof -
      from that have "nested_from 0 mid"
        by (simp add: nested_from_append)
      from i[OF this] k d show ?thesis
        by (simp add: depth_append depth_def)
    qed
    with e m show ?thesis
      by auto
  qed
qed

lemma step_total: "\<exists>c'. step c = Inr c'"
proof (cases "eol (cur c)")
  case True
  then show ?thesis
    by (simp add: step_def split: list.split)
next
  case False
  obtain sty stream' state' where "token (cur c) (lexer_state c) = Inr (sty, stream', state')"
    using token_total by blast
  with False show ?thesis
    by (simp add: step_def)
qed

lemma run_total: "\<exists>c'. run n c = Inr c'"
proof (induction n)
  case 0
  show ?case by simp
next
  case (Suc n)
  then obtain c1 where "run n c = Inr c1"
    by blast
  with step_total[of c1] show ?case
    by auto
qed

text \<open>
  C2. (1) Tokenizing any document from the start state succeeds, and whenever the
  bracket tokens emitted so far never closed a bracket that was not open, the length of
  \<open>macroLockStack\<close> is the nesting depth of those tokens; it is empty at depth zero.
  (2) Outside a string, a delimiter is one bracket token: an opening one appends the
  current \<open>macroLocked\<close> (the value after the line-start reset when the bracket opens
  the line) to the stack and clears it; a closing one removes the last entry of the
  stack into \<open>macroLocked\<close>, and on an empty stack sets \<open>macroLocked\<close> to false and
  leaves the stack empty. (3) When an opening bracket token is followed by tokens that
  are balanced among themselves and then by a closing bracket token, the closing
  bracket sets \<open>macroLocked\<close> to the value the opening bracket saved, and the stack is
  the one from before the opening bracket.
\<close>
theorem C2_bracket_stack:
  "(\<exists>c. run n (init doc) = Inr c
        \<and> (nested_from 0 (emitted c) \<longrightarrow>
             int (length (macroLockStack (lexer_state c))) = depth (emitted c)
             \<and> (depth (emitted c) = 0 \<longrightarrow> macroLockStack (lexer_state c) = [])))
   \<and> (string state = None \<and> peek stream = Some ch \<and> ch \<in> delimiters \<longrightarrow>
        token stream state =
          Inr (Some Bracket, advance 1 stream,
               (let s0 = lineStart stream state in
                if ch = CHR ''('' \<or> ch = CHR ''['' \<or> ch = CHR ''{''
                then s0\<lparr>macroLockStack := macroLockStack s0 @ [macroLocked s0],
                        macroLocked := False, exprStart := True, macroEligible := True,
                        afterDot := False, inSwap := False\<rparr>
                else s0\<lparr>macroLocked := (if macroLockStack s0 = [] then False
                                         else last (macroLockStack s0)),
                        macroLockStack := butlast (macroLockStack s0),
                        exprStart := False, macroEligible := False,
                        afterDot := False, inSwap := False\<rparr>)))
   \<and> (step before_open = Inr after_open
        \<and> emitted after_open = emitted before_open @ [(t, Some Bracket)]
        \<and> t \<in> {''('', ''['', ''{''}
        \<and> run m after_open = Inr before_close \<and> emitted before_close = emitted after_open @ mid
        \<and> nested_from 0 mid \<and> depth mid = 0
        \<and> step before_close = Inr after_close
        \<and> emitted after_close = emitted before_close @ [(t', Some Bracket)]
        \<and> t' \<notin> {''('', ''['', ''{''} \<longrightarrow>
        macroLocked (lexer_state after_close)
          = macroLocked (lineStart (cur before_open) (lexer_state before_open))
        \<and> macroLockStack (lexer_state after_close) = macroLockStack (lexer_state before_open))"
proof -
  have part1: "\<exists>c. run n (init doc) = Inr c
        \<and> (nested_from 0 (emitted c) \<longrightarrow>
             int (length (macroLockStack (lexer_state c))) = depth (emitted c)
             \<and> (depth (emitted c) = 0 \<longrightarrow> macroLockStack (lexer_state c) = []))"
  proof -
    obtain c where r: "run n (init doc) = Inr c"
      using run_total by blast
    from run_stack[OF r]
    have "nested_from 0 (emitted c) \<Longrightarrow>
        int (length (macroLockStack (lexer_state c))) = depth (emitted c)"
      by (auto simp: init_def startState_def)
    with r show ?thesis
      by auto
  qed
  have part2: "token stream state =
          Inr (Some Bracket, advance 1 stream,
               (let s0 = lineStart stream state in
                if ch = CHR ''('' \<or> ch = CHR ''['' \<or> ch = CHR ''{''
                then s0\<lparr>macroLockStack := macroLockStack s0 @ [macroLocked s0],
                        macroLocked := False, exprStart := True, macroEligible := True,
                        afterDot := False, inSwap := False\<rparr>
                else s0\<lparr>macroLocked := (if macroLockStack s0 = [] then False
                                         else last (macroLockStack s0)),
                        macroLockStack := butlast (macroLockStack s0),
                        exprStart := False, macroEligible := False,
                        afterDot := False, inSwap := False\<rparr>))"
    if a: "string state = None \<and> peek stream = Some ch \<and> ch \<in> delimiters"
  proof -
    from a obtain cs where "rest stream = ch # cs"
      by (auto simp: peek_eq_Some)
    then have "next_char stream = advance 1 stream"
      by (rule next_char_Cons)
    with a token_bracket[of state stream ch] show ?thesis
      by (simp add: bracket_token_def Let_def)
  qed
  have part3: "macroLocked (lexer_state after_close)
          = macroLocked (lineStart (cur before_open) (lexer_state before_open))
        \<and> macroLockStack (lexer_state after_close) = macroLockStack (lexer_state before_open)"
    if a: "step before_open = Inr after_open
        \<and> emitted after_open = emitted before_open @ [(t, Some Bracket)]
        \<and> t \<in> {''('', ''['', ''{''}
        \<and> run m after_open = Inr before_close \<and> emitted before_close = emitted after_open @ mid
        \<and> nested_from 0 mid \<and> depth mid = 0
        \<and> step before_close = Inr after_close
        \<and> emitted after_close = emitted before_close @ [(t', Some Bracket)]
        \<and> t' \<notin> {''('', ''['', ''{''}"
  proof -
    let ?v = "macroLocked (lineStart (cur before_open) (lexer_state before_open))"
    from a have d1: "bracket_delta (t, Some Bracket) = 1"
      and d2: "bracket_delta (t', Some Bracket) = - 1"
      by (simp_all add: bracket_delta_def)
    from a step_stack[of before_open after_open] d1
    have k2: "macroLockStack (lexer_state after_open) = macroLockStack (lexer_state before_open) @ [?v]"
      by auto
    from a run_stack[of m after_open before_close]
    have k3: "macroLockStack (lexer_state before_close) = macroLockStack (lexer_state after_open)"
      by auto
    from a step_stack[of before_close after_close] d2
    have "macroLockStack (lexer_state after_close) = butlast (macroLockStack (lexer_state before_close))"
      "macroLocked (lexer_state after_close)
         = (if macroLockStack (lexer_state before_close) = [] then False
            else last (macroLockStack (lexer_state before_close)))"
      by auto
    with k2 k3 show ?thesis
      by simp
  qed
  from part1 part2 part3 show ?thesis
    by blast
qed

theorem C2_bracket_stack_witness:
  "run 3 (init [''go (a[1])'']) = Inr
     \<lparr>cur = \<lparr>line = ''go (a[1])'', pos = 3\<rparr>, pending = [],
        lexer_state = \<lparr>string = None, exprStart = True, macroEligible = False, afterDot = False,
           inSwap = False, macroLocked = True, macroLockStack = []\<rparr>,
        emitted = [(''go'', Some Keyword), ('' '', None)]\<rparr>
   \<and> run 4 (init [''go (a[1])'']) = Inr
     \<lparr>cur = \<lparr>line = ''go (a[1])'', pos = 4\<rparr>, pending = [],
        lexer_state = \<lparr>string = None, exprStart = True, macroEligible = True, afterDot = False,
           inSwap = False, macroLocked = False, macroLockStack = [True]\<rparr>,
        emitted = [(''go'', Some Keyword), ('' '', None), (''('', Some Bracket)]\<rparr>
   \<and> run 8 (init [''go (a[1])'']) = Inr
     \<lparr>cur = \<lparr>line = ''go (a[1])'', pos = 8\<rparr>, pending = [],
        lexer_state = \<lparr>string = None, exprStart = False, macroEligible = False, afterDot = False,
           inSwap = False, macroLocked = False, macroLockStack = [True]\<rparr>,
        emitted = [(''go'', Some Keyword), ('' '', None), (''('', Some Bracket),
           (''a'', Some VariableName), (''['', Some Bracket), (''1'', Some Number),
           ('']'', Some Bracket)]\<rparr>
   \<and> run 9 (init [''go (a[1])'']) = Inr
     \<lparr>cur = \<lparr>line = ''go (a[1])'', pos = 9\<rparr>, pending = [],
        lexer_state = \<lparr>string = None, exprStart = False, macroEligible = False, afterDot = False,
           inSwap = False, macroLocked = True, macroLockStack = []\<rparr>,
        emitted = [(''go'', Some Keyword), ('' '', None), (''('', Some Bracket),
           (''a'', Some VariableName), (''['', Some Bracket), (''1'', Some Number),
           ('']'', Some Bracket), ('')'', Some Bracket)]\<rparr>
   \<and> nested_from 0 [(''go'', Some Keyword), ('' '', None), (''('', Some Bracket),
           (''a'', Some VariableName), (''['', Some Bracket), (''1'', Some Number),
           ('']'', Some Bracket)]
   \<and> depth [(''go'', Some Keyword), ('' '', None), (''('', Some Bracket),
           (''a'', Some VariableName), (''['', Some Bracket), (''1'', Some Number),
           ('']'', Some Bracket)] = 1
   \<and> depth [(''go'', Some Keyword), ('' '', None), (''('', Some Bracket),
           (''a'', Some VariableName), (''['', Some Bracket), (''1'', Some Number),
           ('']'', Some Bracket), ('')'', Some Bracket)] = 0"
proof -
  let ?doc = "[''go (a[1])'']"
  let ?c1 = "\<lparr>cur = \<lparr>line = ''go (a[1])'', pos = 3\<rparr>, pending = [],
        lexer_state = \<lparr>string = None, exprStart = True, macroEligible = False, afterDot = False,
           inSwap = False, macroLocked = True, macroLockStack = []\<rparr>,
        emitted = [(''go'', Some Keyword), ('' '', None)]\<rparr>"
  let ?c2 = "\<lparr>cur = \<lparr>line = ''go (a[1])'', pos = 4\<rparr>, pending = [],
        lexer_state = \<lparr>string = None, exprStart = True, macroEligible = True, afterDot = False,
           inSwap = False, macroLocked = False, macroLockStack = [True]\<rparr>,
        emitted = [(''go'', Some Keyword), ('' '', None), (''('', Some Bracket)]\<rparr>"
  let ?c3 = "\<lparr>cur = \<lparr>line = ''go (a[1])'', pos = 8\<rparr>, pending = [],
        lexer_state = \<lparr>string = None, exprStart = False, macroEligible = False, afterDot = False,
           inSwap = False, macroLocked = False, macroLockStack = [True]\<rparr>,
        emitted = [(''go'', Some Keyword), ('' '', None), (''('', Some Bracket),
           (''a'', Some VariableName), (''['', Some Bracket), (''1'', Some Number),
           ('']'', Some Bracket)]\<rparr>"
  let ?c4 = "\<lparr>cur = \<lparr>line = ''go (a[1])'', pos = 9\<rparr>, pending = [],
        lexer_state = \<lparr>string = None, exprStart = False, macroEligible = False, afterDot = False,
           inSwap = False, macroLocked = True, macroLockStack = []\<rparr>,
        emitted = [(''go'', Some Keyword), ('' '', None), (''('', Some Bracket),
           (''a'', Some VariableName), (''['', Some Bracket), (''1'', Some Number),
           ('']'', Some Bracket), ('')'', Some Bracket)]\<rparr>"
  let ?mid = "[(''a'', Some VariableName), (''['', Some Bracket), (''1'', Some Number), ('']'', Some Bracket)]"
  have r1: "run 3 (init ?doc) = Inr ?c1"
    by code_simp
  have s1: "step ?c1 = Inr ?c2"
    by code_simp
  have r2: "run 4 ?c2 = Inr ?c3"
    by code_simp
  have s2: "step ?c3 = Inr ?c4"
    by code_simp
  have e: "emitted ?c2 = emitted ?c1 @ [(''('', Some Bracket)]"
    "emitted ?c3 = emitted ?c2 @ ?mid"
    "emitted ?c4 = emitted ?c3 @ [('')'', Some Bracket)]"
    by simp_all
  have b: "''('' \<in> {''('', ''['', ''{''}" "'')'' \<notin> {''('', ''['', ''{''}"
    by simp_all
  have m: "nested_from 0 ?mid" "depth ?mid = 0"
    by code_simp+
  have n3: "nested_from 0 (emitted ?c3)"
    by code_simp
  have d3: "depth (emitted ?c3) = 1"
    by code_simp
  have d4: "depth (emitted ?c4) = 0"
    by code_simp
  note c2 = C2_bracket_stack[where n = 8 and doc = ?doc and before_open = ?c1 and after_open = ?c2
      and before_close = ?c3 and after_close = ?c4 and t = "''(''" and t' = "'')''" and mid = ?mid and m = 4
      and state = "lexer_state ?c1" and stream = "cur ?c1" and ch = "CHR ''(''"]
  from c2[THEN conjunct1] obtain c where c: "run 8 (init ?doc) = Inr c"
    "nested_from 0 (emitted c) \<longrightarrow>
       int (length (macroLockStack (lexer_state c))) = depth (emitted c)
       \<and> (depth (emitted c) = 0 \<longrightarrow> macroLockStack (lexer_state c) = [])"
    by blast
  from c2[THEN conjunct2, THEN conjunct2, THEN mp,
      OF conjI[OF s1 conjI[OF e(1) conjI[OF b(1) conjI[OF r2 conjI[OF e(2)
        conjI[OF m(1) conjI[OF m(2) conjI[OF s2 conjI[OF e(3) b(2)]]]]]]]]]]
  have restored: "macroLocked (lexer_state ?c4) = macroLocked (lineStart (cur ?c1) (lexer_state ?c1))"
    by (rule conjunct1)
  have r4: "run 4 (init ?doc) = Inr ?c2"
    using r1 s1 by (simp add: numeral_eq_Suc)
  have r8: "run 8 (init ?doc) = Inr ?c3"
    by code_simp
  have r9: "run 9 (init ?doc) = Inr ?c4"
    by code_simp
  from c(1) r8 have "c = ?c3"
    by simp
  with c(2) n3 have "int (length (macroLockStack (lexer_state ?c3))) = depth (emitted ?c3)"
    by blast
  then have d3': "depth [(''go'', Some Keyword), ('' '', None), (''('', Some Bracket),
           (''a'', Some VariableName), (''['', Some Bracket), (''1'', Some Number),
           ('']'', Some Bracket)] = 1"
    by simp
  from r1 r4 r8 r9 n3 d3' d4 restored show ?thesis
    by simp
qed

end
